theory Spec2Isabelle
  imports Complex_Main "HOL-Library.Word" "HOL-Library.Signed_Division" "HOL-Library.Log_Nat"
begin

unbundle bit_operations_syntax

section \<open>Scalar utilities of appleseed.foundation (foundation/math/scalar.h)\<close>

text \<open>
  The header is a collection of stateless function templates.  An integer instantiation
  \<open>T\<close> of width \<open>w\<close> is modelled as \<open>w word\<close>: \<open>+\<close> and \<open>-\<close> wrap around, \<open>drop_bit\<close> is the
  logical right shift of an unsigned \<open>T\<close>, \<open>signed_drop_bit\<close> the arithmetic right shift of a
  signed \<open>T\<close>, \<open><\<close> and \<open>\<le>\<close> compare unsigned values, \<open><s\<close> and \<open>\<le>s\<close> signed ones.  A function
  that starts with \<open>assert(c)\<close> returns \<open>None\<close> where \<open>c\<close> fails.  C++ computes a \<open>T\<close>
  narrower than \<open>int\<close> (32 bits) in \<open>int\<close> and cuts the result to \<open>T\<close> where it is stored or
  returned; the word operations give the same value, except where a definition says
  otherwise.
\<close>

subsection \<open>Integer bit tricks\<close>

text \<open>
  \<open>is_pow2\<close>: \<open>return (x & (x - 1)) == 0;\<close>.  This is the test at an unsigned \<open>T\<close>, and at a
  signed \<open>T\<close> for every \<open>x\<close> but the minimum of \<open>T\<close>: there \<open>x - 1\<close> leaves the range of \<open>T\<close>,
  which is undefined at \<open>int\<close> and wider types and gives false at narrower ones, where the
  test is made in \<open>int\<close>.
\<close>

definition is_pow2 :: "'a::len word \<Rightarrow> bool" where
  "is_pow2 x = (x AND (x - 1) = 0)"

text \<open>
  The generic template \<open>next_pow2<T>\<close> (shifts 16, 8, 4, 2, 1), at an unsigned \<open>T\<close> and at a
  signed \<open>T\<close>, and the two explicit specialisations for \<open>int64\<close> and \<open>uint64\<close>, which shift by
  32 first.
\<close>

definition next_pow2 :: "'a::len word \<Rightarrow> 'a word option" where
  "next_pow2 x =
     (if 0 < x then
        (let x = x - 1;
             x = x OR drop_bit 16 x;
             x = x OR drop_bit 8 x;
             x = x OR drop_bit 4 x;
             x = x OR drop_bit 2 x;
             x = x OR drop_bit 1 x
         in Some (x + 1))
      else None)"

definition next_pow2_signed :: "'a::len word \<Rightarrow> 'a word option" where
  "next_pow2_signed x =
     (if 0 <s x then
        (let x = x - 1;
             x = x OR signed_drop_bit 16 x;
             x = x OR signed_drop_bit 8 x;
             x = x OR signed_drop_bit 4 x;
             x = x OR signed_drop_bit 2 x;
             x = x OR signed_drop_bit 1 x
         in Some (x + 1))
      else None)"

definition next_pow2_int64 :: "64 word \<Rightarrow> 64 word option" where
  "next_pow2_int64 x =
     (if 0 <s x then
        (let x = x - 1;
             x = x OR signed_drop_bit 32 x;
             x = x OR signed_drop_bit 16 x;
             x = x OR signed_drop_bit 8 x;
             x = x OR signed_drop_bit 4 x;
             x = x OR signed_drop_bit 2 x;
             x = x OR signed_drop_bit 1 x
         in Some (x + 1))
      else None)"

definition next_pow2_uint64 :: "64 word \<Rightarrow> 64 word option" where
  "next_pow2_uint64 x =
     (if 0 < x then
        (let x = x - 1;
             x = x OR drop_bit 32 x;
             x = x OR drop_bit 16 x;
             x = x OR drop_bit 8 x;
             x = x OR drop_bit 4 x;
             x = x OR drop_bit 2 x;
             x = x OR drop_bit 1 x
         in Some (x + 1))
      else None)"

subsection \<open>Binary floating point\<close>

text \<open>
  The floating instantiations are \<open>float\<close> and \<open>double\<close>, IEEE 754 binary32 and binary64 in
  the default rounding mode.  A format is its precision and largest exponent.  A value is a
  finite rational, an infinity or a NaN; the two zeros are one value, since nothing modelled
  here tells them apart (comparisons treat them as equal, and no function below divides by
  zero when its arguments are values of the format).  An operation computes the exact
  rational result and rounds it to the nearest value of the format, ties to even, with
  gradual underflow and overflow to infinity.
\<close>

record format =
  prec :: nat
  emax :: int

definition binary32 :: format where
  "binary32 = \<lparr>prec = 24, emax = 127\<rparr>"

definition binary64 :: format where
  "binary64 = \<lparr>prec = 53, emax = 1023\<rparr>"

datatype fval = Fin rat | PInf | NInf | NaN

text \<open>The exponent of a positive rational: \<open>2^e \<le> q < 2^(e+1)\<close>.\<close>

definition ilog2 :: "rat \<Rightarrow> int" where
  "ilog2 q = (case quotient_of q of (a, b) \<Rightarrow>
     (let d = bitlen a - bitlen b in if 2 powi d \<le> q then d else d - 1))"

text \<open>Rounding a rational to the nearest integer, ties to even.\<close>

definition rne :: "rat \<Rightarrow> int" where
  "rne r = (let f = \<lfloor>r\<rfloor>; d = r - of_int f in
     if d < 1 / 2 then f else if 1 / 2 < d then f + 1 else if even f then f else f + 1)"

text \<open>The spacing of the format's values around a nonzero rational.\<close>

definition quantum :: "format \<Rightarrow> rat \<Rightarrow> rat" where
  "quantum fmt q = 2 powi (max (ilog2 \<bar>q\<bar>) (1 - emax fmt) - (int (prec fmt) - 1))"

definition rnd :: "format \<Rightarrow> rat \<Rightarrow> fval" where
  "rnd fmt q =
     (if q = 0 then Fin 0
      else (let u = quantum fmt q; r = of_int (rne (\<bar>q\<bar> / u)) * u in
        if 2 powi (emax fmt + 1) \<le> r then (if 0 < q then PInf else NInf)
        else Fin (if 0 < q then r else - r)))"

text \<open>A value of the format: an infinity, a NaN, or a rational that rounding leaves alone.\<close>

definition is_float :: "format \<Rightarrow> fval \<Rightarrow> bool" where
  "is_float fmt x = (case x of Fin q \<Rightarrow> rnd fmt q = Fin q | _ \<Rightarrow> True)"

definition is_finite :: "fval \<Rightarrow> bool" where
  "is_finite x = (case x of Fin q \<Rightarrow> True | _ \<Rightarrow> False)"

text \<open>\<open>std::numeric_limits<T>::max()\<close> and \<open>min()\<close> (the smallest positive normal value).\<close>

definition numeric_max :: "format \<Rightarrow> fval" where
  "numeric_max fmt = Fin ((2 - 2 powi (1 - int (prec fmt))) * 2 powi (emax fmt))"

definition numeric_min :: "format \<Rightarrow> fval" where
  "numeric_min fmt = Fin (2 powi (1 - emax fmt))"

text \<open>Comparisons: every comparison with a NaN is false.\<close>

fun flt :: "fval \<Rightarrow> fval \<Rightarrow> bool" where
  "flt NaN y = False"
| "flt x NaN = False"
| "flt (Fin a) (Fin b) = (a < b)"
| "flt (Fin a) PInf = True"
| "flt NInf (Fin b) = True"
| "flt NInf PInf = True"
| "flt x y = False"

fun fle :: "fval \<Rightarrow> fval \<Rightarrow> bool" where
  "fle NaN y = False"
| "fle x NaN = False"
| "fle (Fin a) (Fin b) = (a \<le> b)"
| "fle NInf y = True"
| "fle x PInf = True"
| "fle x y = False"

definition fgt :: "fval \<Rightarrow> fval \<Rightarrow> bool" where
  "fgt x y = flt y x"

definition fge :: "fval \<Rightarrow> fval \<Rightarrow> bool" where
  "fge x y = fle y x"

text \<open>\<open>==\<close> on floating values.\<close>

definition fequal :: "fval \<Rightarrow> fval \<Rightarrow> bool" where
  "fequal x y = (x \<noteq> NaN \<and> x = y)"

text \<open>Negation and \<open>std::abs\<close>.\<close>

fun fneg :: "fval \<Rightarrow> fval" where
  "fneg (Fin a) = Fin (- a)"
| "fneg PInf = NInf"
| "fneg NInf = PInf"
| "fneg NaN = NaN"

fun fabs :: "fval \<Rightarrow> fval" where
  "fabs (Fin a) = Fin \<bar>a\<bar>"
| "fabs PInf = PInf"
| "fabs NInf = PInf"
| "fabs NaN = NaN"

text \<open>The arithmetic operators at a format.\<close>

fun fadd :: "format \<Rightarrow> fval \<Rightarrow> fval \<Rightarrow> fval" where
  "fadd fmt NaN y = NaN"
| "fadd fmt x NaN = NaN"
| "fadd fmt PInf NInf = NaN"
| "fadd fmt NInf PInf = NaN"
| "fadd fmt PInf y = PInf"
| "fadd fmt x PInf = PInf"
| "fadd fmt NInf y = NInf"
| "fadd fmt x NInf = NInf"
| "fadd fmt (Fin a) (Fin b) = rnd fmt (a + b)"

definition fsub :: "format \<Rightarrow> fval \<Rightarrow> fval \<Rightarrow> fval" where
  "fsub fmt x y = fadd fmt x (fneg y)"

fun fmul :: "format \<Rightarrow> fval \<Rightarrow> fval \<Rightarrow> fval" where
  "fmul fmt NaN y = NaN"
| "fmul fmt x NaN = NaN"
| "fmul fmt (Fin a) (Fin b) = rnd fmt (a * b)"
| "fmul fmt (Fin a) PInf = (if a = 0 then NaN else if 0 < a then PInf else NInf)"
| "fmul fmt (Fin a) NInf = (if a = 0 then NaN else if 0 < a then NInf else PInf)"
| "fmul fmt PInf (Fin b) = (if b = 0 then NaN else if 0 < b then PInf else NInf)"
| "fmul fmt NInf (Fin b) = (if b = 0 then NaN else if 0 < b then NInf else PInf)"
| "fmul fmt PInf PInf = PInf"
| "fmul fmt PInf NInf = NInf"
| "fmul fmt NInf PInf = NInf"
| "fmul fmt NInf NInf = PInf"

fun fdiv :: "format \<Rightarrow> fval \<Rightarrow> fval \<Rightarrow> fval" where
  "fdiv fmt NaN y = NaN"
| "fdiv fmt x NaN = NaN"
| "fdiv fmt (Fin a) (Fin b) =
     (if b = 0 then (if a = 0 then NaN else if 0 < a then PInf else NInf)
      else rnd fmt (a / b))"
| "fdiv fmt (Fin a) y = Fin 0"
| "fdiv fmt PInf (Fin b) = (if 0 \<le> b then PInf else NInf)"
| "fdiv fmt NInf (Fin b) = (if 0 \<le> b then NInf else PInf)"
| "fdiv fmt x y = NaN"

text \<open>
  \<open>std::fmod\<close>: the exact remainder \<open>a - n * trunc(a / n)\<close>, with the sign of \<open>a\<close>; it is
  always a value of the format, so it is not rounded.
\<close>

definition trunc :: "rat \<Rightarrow> int" where
  "trunc q = (if 0 \<le> q then \<lfloor>q\<rfloor> else \<lceil>q\<rceil>)"


text \<open>Conversion of a \<open>double\<close> to the format \<open>T\<close>, as in \<open>T(c)\<close>.\<close>

fun fcast :: "format \<Rightarrow> fval \<Rightarrow> fval" where
  "fcast fmt (Fin a) = rnd fmt a"
| "fcast fmt x = x"

subsection \<open>The floating-point functions of the header\<close>

text \<open>
  Each function takes the format of its template argument \<open>T\<close>.  Literals such as \<open>T(0.5)\<close>
  and \<open>T(3.0)\<close> are exact in every format.
\<close>

text \<open>The constant \<open>Pi\<close> is a \<open>double\<close>: the literal \<open>3.1415926535897932\<close>, rounded.\<close>

definition Pi_double :: fval where
  "Pi_double = rnd binary64 (31415926535897932 / 10 ^ 16)"

text \<open>\<open>angle * T(Pi / 180.0)\<close> and \<open>angle * T(180.0 / Pi)\<close>; the quotients are \<open>double\<close>s.\<close>

definition deg_to_rad :: "format \<Rightarrow> fval \<Rightarrow> fval" where
  "deg_to_rad fmt angle = fmul fmt angle (fcast fmt (fdiv binary64 Pi_double (Fin 180)))"

definition rad_to_deg :: "format \<Rightarrow> fval \<Rightarrow> fval" where
  "rad_to_deg fmt angle = fmul fmt angle (fcast fmt (fdiv binary64 (Fin 180) Pi_double))"

text \<open>
  Conversion of a floating value to an integer type \<open>Int\<close>, \<open>static_cast<Int>(x)\<close>: the value
  is truncated toward zero; the behaviour is undefined (\<open>None\<close>) when the truncated value is not
  a value of \<open>Int\<close>, and for infinities and NaN.
\<close>

datatype signedness = Signed | Unsigned

definition int_range :: "signedness \<Rightarrow> nat \<Rightarrow> int \<Rightarrow> bool" where
  "int_range sg w t =
     (case sg of Signed \<Rightarrow> - (2 ^ (w - 1)) \<le> t \<and> t < 2 ^ (w - 1)
               | Unsigned \<Rightarrow> 0 \<le> t \<and> t < 2 ^ w)"

definition static_cast_int :: "signedness \<Rightarrow> fval \<Rightarrow> 'a::len word option" where
  "static_cast_int sg x =
     (case x of
        Fin q \<Rightarrow> (if int_range sg LENGTH('a) (trunc q) then Some (word_of_int (trunc q)) else None)
      | _ \<Rightarrow> None)"

text \<open>
  The SSE conversions \<open>_mm_cvttss_si32\<close> and \<open>_mm_cvttsd_si32\<close> (CVTTSS2SI, CVTTSD2SI): the
  value truncated toward zero as a 32-bit signed integer, and the integer indefinite value
  \<open>0x80000000\<close> when that does not fit, for infinities and for NaN.
\<close>

definition mm_cvtt_si32 :: "fval \<Rightarrow> 32 word" where
  "mm_cvtt_si32 x =
     (case x of
        Fin q \<Rightarrow> (if - (2 ^ 31) \<le> trunc q \<and> trunc q < 2 ^ 31 then word_of_int (trunc q)
                  else 0x80000000)
      | _ \<Rightarrow> 0x80000000)"

text \<open>
  \<open>truncate<Int>\<close>, for \<open>float\<close> and for \<open>double\<close> (the two overloads have the same body).
  The flag says whether \<open>APPLESEED_FOUNDATION_USE_SSE\<close> is defined; the conversion of the
  32-bit result to \<open>Int\<close> is a sign extension or a cut.
\<close>

definition truncate :: "bool \<Rightarrow> signedness \<Rightarrow> fval \<Rightarrow> 'a::len word option" where
  "truncate use_sse sg x =
     (if use_sse then Some (scast (mm_cvtt_si32 x)) else static_cast_int sg x)"

text \<open>\<open>round<Int>\<close>: \<open>truncate<Int>(x < T(0.0) ? x - T(0.5) : x + T(0.5))\<close>.\<close>

definition round_int :: "format \<Rightarrow> bool \<Rightarrow> signedness \<Rightarrow> fval \<Rightarrow> 'a::len word option" where
  "round_int fmt use_sse sg x =
     truncate use_sse sg
       (if flt x (Fin 0) then fsub fmt x (Fin (1 / 2)) else fadd fmt x (Fin (1 / 2)))"




text \<open>\<open>smoothstep\<close>, with its assertion \<open>a < b\<close>.\<close>

definition smoothstep :: "format \<Rightarrow> fval \<Rightarrow> fval \<Rightarrow> fval \<Rightarrow> fval option" where
  "smoothstep fmt a b x =
     (if \<not> flt a b then None
      else if fle x a then Some (Fin 0)
      else if fge x b then Some (Fin 1)
      else (let y = fdiv fmt (fsub fmt x a) (fsub fmt b a)
            in Some (fmul fmt (fmul fmt y y) (fsub fmt (fsub fmt (Fin 3) y) y))))"

text \<open>
  The default tolerances \<open>default_eps<float>()\<close> and \<open>default_eps<double>()\<close>, the literals
  \<open>1.0e-6f\<close> and \<open>1.0e-14\<close>.
\<close>

definition default_eps_float :: fval where
  "default_eps_float = rnd binary32 (1 / 10 ^ 6)"

definition default_eps_double :: fval where
  "default_eps_double = rnd binary64 (1 / 10 ^ 14)"

text \<open>\<open>scalar_impl::feq<T>\<close>; the conjunctions are C++'s \<open>&&\<close>, which evaluates its right side
  only when the left side holds.\<close>

definition feq :: "format \<Rightarrow> fval \<Rightarrow> fval \<Rightarrow> fval \<Rightarrow> bool" where
  "feq fmt lhs rhs eps =
     (if fequal lhs (Fin 0) then flt (fabs rhs) eps
      else if fequal rhs (Fin 0) then flt (fabs lhs) eps
      else (let abs_lhs = fabs lhs; abs_rhs = fabs rhs in
        if (if flt abs_rhs (Fin 1) then fgt abs_lhs (fmul fmt abs_rhs (numeric_max fmt)) else False)
        then False
        else if (if fgt abs_rhs (Fin 1) then flt abs_lhs (fmul fmt abs_rhs (numeric_min fmt)) else False)
        then False
        else (if fgt (fdiv fmt lhs rhs) (fsub fmt (Fin 1) eps)
              then flt (fdiv fmt lhs rhs) (fadd fmt (Fin 1) eps) else False)))"

text \<open>\<open>fz\<close> for \<open>float\<close> and \<open>double\<close>: \<open>std::abs(lhs) < eps\<close>.\<close>

definition fz :: "fval \<Rightarrow> fval \<Rightarrow> bool" where
  "fz lhs eps = flt (fabs lhs) eps"

section \<open>Integer bit tricks: proofs\<close>

subsection \<open>Bits and magnitudes of a word\<close>

lemma bit_imp_le_unat:
  fixes y :: "'a::len word"
  assumes "bit y j" shows "2 ^ j \<le> unat y"
proof -
  from assms have "bit (unat y) j" by (simp add: bit_unsigned_iff)
  then have "odd (unat y div 2 ^ j)" by (simp add: bit_nat_def)
  then have "unat y div 2 ^ j \<noteq> 0" by (intro notI) simp
  then show ?thesis by (simp add: div_eq_0_iff not_less)
qed

lemma no_high_bits_less:
  fixes y :: "'a::len word"
  assumes "\<forall>j\<ge>i. \<not> bit y j" shows "unat y < 2 ^ i"
proof -
  have "take_bit i y = y"
  proof (rule bit_eqI)
    fix n show "bit (take_bit i y) n = bit y n"
      using assms by (cases "n < i") (simp_all add: bit_take_bit_iff)
  qed
  then have "unat y = unat (take_bit i y)" by (rule arg_cong [OF sym])
  also have "\<dots> = take_bit i (unat y)" by (rule unsigned_take_bit_eq)
  also have "\<dots> < 2 ^ i" by (rule take_bit_nat_less_exp)
  finally show ?thesis .
qed

lemma high_bit_iff:
  fixes y :: "'a::len word"
  shows "(\<exists>j\<ge>i. bit y j) \<longleftrightarrow> 2 ^ i \<le> unat y"
proof
  assume "\<exists>j\<ge>i. bit y j"
  then obtain j where "i \<le> j" "bit y j" by blast
  then have "2 ^ i \<le> (2::nat) ^ j" "2 ^ j \<le> unat y"
    by (simp_all add: bit_imp_le_unat)
  then show "2 ^ i \<le> unat y" by (rule order_trans)
next
  assume "2 ^ i \<le> unat y"
  with no_high_bits_less [of i y] show "\<exists>j\<ge>i. bit y j" by (meson not_less)
qed

lemma smear_step:
  fixes y z :: "'a::len word"
  assumes "\<forall>i. bit z i \<longleftrightarrow> (\<exists>j<m. bit y (i + 2 * k * j))"
  shows "\<forall>i. bit (z OR drop_bit k z) i \<longleftrightarrow> (\<exists>j<2 * m. bit y (i + k * j))"
proof
  fix i
  have "bit (z OR drop_bit k z) i \<longleftrightarrow> bit z i \<or> bit z (k + i)"
    by (simp add: bit_or_iff bit_drop_bit_eq)
  also have "\<dots> \<longleftrightarrow> (\<exists>j<m. bit y (i + k * (2 * j))) \<or> (\<exists>j<m. bit y (i + k * (2 * j + 1)))"
    using assms by (simp add: algebra_simps)
  also have "\<dots> \<longleftrightarrow> (\<exists>j<2 * m. bit y (i + k * j))"
  proof
    assume "(\<exists>j<m. bit y (i + k * (2 * j))) \<or> (\<exists>j<m. bit y (i + k * (2 * j + 1)))"
    then show "\<exists>j<2 * m. bit y (i + k * j)"
    proof
      assume "\<exists>j<m. bit y (i + k * (2 * j))"
      then obtain j where "j < m" "bit y (i + k * (2 * j))" by blast
      then show ?thesis by (intro exI [of _ "2 * j"]) simp
    next
      assume "\<exists>j<m. bit y (i + k * (2 * j + 1))"
      then obtain j where "j < m" "bit y (i + k * (2 * j + 1))" by blast
      then show ?thesis by (intro exI [of _ "2 * j + 1"]) simp
    qed
  next
    assume "\<exists>j<2 * m. bit y (i + k * j)"
    then obtain j where j: "j < 2 * m" "bit y (i + k * j)" by blast
    show "(\<exists>j<m. bit y (i + k * (2 * j))) \<or> (\<exists>j<m. bit y (i + k * (2 * j + 1)))"
    proof (cases "even j")
      case True
      then obtain h where "j = 2 * h" by (auto elim: evenE)
      with j show ?thesis by auto
    next
      case False
      then obtain h where "j = 2 * h + 1" by (auto elim: oddE)
      with j show ?thesis by auto
    qed
  qed
  finally show "bit (z OR drop_bit k z) i \<longleftrightarrow> (\<exists>j<2 * m. bit y (i + k * j))" .
qed


lemma smear5_bits:
  fixes y :: "'a::len word"
  defines "z1 \<equiv> y OR drop_bit 16 y"
  defines "z2 \<equiv> z1 OR drop_bit 8 z1"
  defines "z3 \<equiv> z2 OR drop_bit 4 z2"
  defines "z4 \<equiv> z3 OR drop_bit 2 z3"
  defines "z5 \<equiv> z4 OR drop_bit 1 z4"
  shows "\<forall>i. bit z5 i \<longleftrightarrow> (\<exists>j<32. bit y (i + j))"
proof -
  have "\<forall>i. bit y i \<longleftrightarrow> (\<exists>j<1. bit y (i + 2 * 16 * j))" by simp
  from smear_step [OF this] have "\<forall>i. bit z1 i \<longleftrightarrow> (\<exists>j<2. bit y (i + 2 * 8 * j))"
    by (simp add: z1_def)
  from smear_step [OF this] have "\<forall>i. bit z2 i \<longleftrightarrow> (\<exists>j<4. bit y (i + 2 * 4 * j))"
    by (simp add: z2_def)
  from smear_step [OF this] have "\<forall>i. bit z3 i \<longleftrightarrow> (\<exists>j<8. bit y (i + 2 * 2 * j))"
    by (simp add: z3_def)
  from smear_step [OF this] have "\<forall>i. bit z4 i \<longleftrightarrow> (\<exists>j<16. bit y (i + 2 * 1 * j))"
    by (simp add: z4_def)
  from smear_step [OF this] show ?thesis
    by (simp add: z5_def)
qed

lemma smear6_bits:
  fixes y :: "'a::len word"
  defines "z0 \<equiv> y OR drop_bit 32 y"
  defines "z1 \<equiv> z0 OR drop_bit 16 z0"
  defines "z2 \<equiv> z1 OR drop_bit 8 z1"
  defines "z3 \<equiv> z2 OR drop_bit 4 z2"
  defines "z4 \<equiv> z3 OR drop_bit 2 z3"
  defines "z5 \<equiv> z4 OR drop_bit 1 z4"
  shows "\<forall>i. bit z5 i \<longleftrightarrow> (\<exists>j<64. bit y (i + j))"
proof -
  have "\<forall>i. bit y i \<longleftrightarrow> (\<exists>j<1. bit y (i + 2 * 32 * j))" by simp
  from smear_step [OF this] have "\<forall>i. bit z0 i \<longleftrightarrow> (\<exists>j<2. bit y (i + 2 * 16 * j))"
    by (simp add: z0_def)
  from smear_step [OF this] have "\<forall>i. bit z1 i \<longleftrightarrow> (\<exists>j<4. bit y (i + 2 * 8 * j))"
    by (simp add: z1_def)
  from smear_step [OF this] have "\<forall>i. bit z2 i \<longleftrightarrow> (\<exists>j<8. bit y (i + 2 * 4 * j))"
    by (simp add: z2_def)
  from smear_step [OF this] have "\<forall>i. bit z3 i \<longleftrightarrow> (\<exists>j<16. bit y (i + 2 * 2 * j))"
    by (simp add: z3_def)
  from smear_step [OF this] have "\<forall>i. bit z4 i \<longleftrightarrow> (\<exists>j<32. bit y (i + 2 * 1 * j))"
    by (simp add: z4_def)
  from smear_step [OF this] show ?thesis
    by (simp add: z5_def)
qed

text \<open>Once the shifts cover the width, bit i of the smeared word says that y reaches 2^i.\<close>

lemma covered_bits:
  fixes y z :: "'a::len word"
  assumes "\<forall>i. bit z i \<longleftrightarrow> (\<exists>j<m. bit y (i + j))" and "LENGTH('a) \<le> m"
  shows "bit z i \<longleftrightarrow> 2 ^ i \<le> unat y"
proof -
  have "(\<exists>j<m. bit y (i + j)) \<longleftrightarrow> (\<exists>j\<ge>i. bit y j)"
  proof
    assume "\<exists>j<m. bit y (i + j)"
    then obtain j where "bit y (i + j)" by blast
    then show "\<exists>j\<ge>i. bit y j" by (intro exI [of _ "i + j"]) simp
  next
    assume "\<exists>j\<ge>i. bit y j"
    then obtain j where j: "i \<le> j" "bit y j" by blast
    then have "j < LENGTH('a)" by (simp add: bit_imp_le_length)
    with j assms(2) have "j - i < m" "bit y (i + (j - i))" by simp_all
    then show "\<exists>j<m. bit y (i + j)" by blast
  qed
  with assms(1) show ?thesis by (simp add: high_bit_iff)
qed

lemma smeared_succ:
  fixes x z :: "'a::len word"
  assumes z: "\<And>i. bit z i \<longleftrightarrow> 2 ^ i \<le> unat (x - 1)" and x: "x \<noteq> 0"
    and le: "unat x \<le> 2 ^ (LENGTH('a) - 1)"
  shows "\<exists>n<LENGTH('a). z + 1 = 2 ^ n \<and> unat x \<le> 2 ^ n \<and> 2 ^ n < 2 * unat x"
proof -
  define y where "y = x - 1"
  define n where "n = (LEAST n. unat y < 2 ^ n)"
  have ux: "unat x = unat y + 1"
    unfolding y_def using x
    by (metis Suc_diff_1 Suc_eq_plus1 not_gr_zero unat_minus_one unsigned_0 word_eq_iff_unsigned)
  have "unat y < 2 ^ (LENGTH('a) - 1)" using ux le by simp
  then have n_le: "n \<le> LENGTH('a) - 1" unfolding n_def by (rule Least_le)
  then have n_less: "n < LENGTH('a)" by (simp add: Suc_leI less_eq_Suc_le)
  have "unat y < 2 ^ LENGTH('a)" by simp
  then have upper: "unat y < 2 ^ n" unfolding n_def by (rule LeastI)
  have lower: "2 ^ i \<le> unat y" if "i < n" for i
    using not_less_Least [of i "\<lambda>n. unat y < 2 ^ n"] that by (simp add: n_def not_less)
  have "z = mask n"
  proof (rule bit_eqI)
    fix i
    show "bit z i = bit (mask n :: 'a word) i"
    proof (cases "i < n")
      case True
      with lower n_less show ?thesis by (simp add: z y_def bit_mask_iff)
    next
      case False
      then have "(2::nat) ^ n \<le> 2 ^ i" by simp
      with upper have "\<not> 2 ^ i \<le> unat y" by linarith
      with False show ?thesis by (simp add: z y_def bit_mask_iff)
    qed
  qed
  then have "z + 1 = 2 ^ n" by (simp add: inc_mask_eq_exp)
  moreover have "unat x \<le> 2 ^ n" using upper ux by simp
  moreover have "2 ^ n < 2 * unat x"
  proof (cases n)
    case 0
    then show ?thesis using ux by simp
  next
    case (Suc k)
    then have "2 ^ k \<le> unat y" using lower [of k] by simp
    then show ?thesis using Suc ux by simp
  qed
  ultimately show ?thesis using n_less by blast
qed

lemma is_pow2_exp: "is_pow2 (2 ^ n :: 'a::len word)"
  unfolding is_pow2_def
  by (rule bit_eqI) (auto simp add: bit_and_iff bit_exp_iff bit_mask_iff simp flip: mask_eq_exp_minus_1)

lemma unat_exp: "n < LENGTH('a) \<Longrightarrow> unat (2 ^ n :: 'a::len word) = 2 ^ n"
proof -
  assume n: "n < LENGTH('a)"
  have "unat (2 ^ n :: 'a word) = unat (of_nat (2 ^ n) :: 'a word)" by simp
  also have "\<dots> = 2 ^ n mod 2 ^ LENGTH('a)" by (simp only: unat_of_nat)
  also have "\<dots> = 2 ^ n" using n by simp
  finally show ?thesis .
qed

lemma top_bit_set:
  fixes w :: "'a::len word"
  assumes "2 ^ n \<le> unat w" "unat w < 2 ^ Suc n"
  shows "bit w n"
proof -
  have "unat w div 2 ^ n = 1"
    using assms by (intro div_nat_eqI) simp_all
  then have "bit (unat w) n" by (simp add: bit_nat_def)
  then show ?thesis by (simp add: bit_unsigned_iff)
qed

lemma is_pow2_imp_exp:
  fixes x :: "'a::len word"
  assumes "is_pow2 x" "x \<noteq> 0"
  shows "\<exists>k<LENGTH('a). x = 2 ^ k"
proof -
  define n where "n = (LEAST n. unat x < 2 ^ Suc n)"
  have "unat x < 2 ^ Suc (LENGTH('a) - 1)" using unsigned_less [of x, where 'a = nat] by simp
  then have n_le: "n \<le> LENGTH('a) - 1" unfolding n_def by (rule Least_le)
  then have n_less: "n < LENGTH('a)" by (simp add: Suc_leI less_eq_Suc_le)
  have "unat x < 2 ^ Suc (LENGTH('a) - 1)" using unsigned_less [of x, where 'a = nat] by simp
  then have upper: "unat x < 2 ^ Suc n" unfolding n_def by (rule LeastI)
  have pos: "0 < unat x" using assms(2) by (simp add: unat_gt_0)
  have lower: "2 ^ n \<le> unat x"
  proof (cases n)
    case 0
    with pos show ?thesis by simp
  next
    case (Suc k)
    then have "k < n" by simp
    then have "\<not> unat x < 2 ^ Suc k"
      unfolding n_def by (rule not_less_Least)
    then show ?thesis by (simp only: Suc not_less)
  qed
  have "unat x = 2 ^ n"
  proof (rule ccontr)
    assume "unat x \<noteq> 2 ^ n"
    with lower have gt: "2 ^ n < unat x" by simp
    have ux: "unat (x - 1) = unat x - 1" using assms(2) by (rule unat_minus_one)
    have "bit x n" using lower upper by (rule top_bit_set)
    moreover have "bit (x - 1) n" using gt upper ux by (intro top_bit_set) simp_all
    ultimately have "bit (x AND (x - 1)) n" by (simp add: bit_and_iff)
    with assms(1) show False by (simp add: is_pow2_def)
  qed
  then have "unat x = unat (2 ^ n :: 'a word)" using n_less by (simp add: unat_exp)
  then have "x = 2 ^ n" by (simp only: word_unat_eq_iff)
  with n_less show ?thesis by blast
qed

text \<open>The result of the smear-and-increment step, for an input it can represent.\<close>

lemma next_pow2_core:
  fixes x z :: "'a::len word"
  assumes z: "\<And>i. bit z i \<longleftrightarrow> 2 ^ i \<le> unat (x - 1)" and x: "x \<noteq> 0"
    and le: "unat x \<le> 2 ^ (LENGTH('a) - 1)"
  shows "is_pow2 (z + 1) \<and> unat x \<le> unat (z + 1) \<and> unat (z + 1) < 2 * unat x \<and>
    (is_pow2 x \<longrightarrow> z + 1 = x)"
proof -
  from smeared_succ [of z x, OF z x le]
  obtain n where n: "n < LENGTH('a)" "z + 1 = 2 ^ n" "unat x \<le> 2 ^ n" "2 ^ n < 2 * unat x"
    by blast
  have "z + 1 = x" if "is_pow2 x"
  proof -
    from is_pow2_imp_exp [OF that x] obtain k where k: "k < LENGTH('a)" "x = 2 ^ k" by blast
    then have uk: "unat x = 2 ^ k" by (simp add: unat_exp)
    with n(3) have "k \<le> n" by simp
    moreover from uk n(4) have "(2::nat) ^ n < 2 ^ Suc k" by simp
    then have "n < Suc k" by (simp only: power_strict_increasing_iff rel_simps)
    ultimately have "n = k" by simp
    with n(2) k(2) show ?thesis by simp
  qed
  with n show ?thesis by (simp add: is_pow2_exp unat_exp)
qed

subsection \<open>Signed instantiations\<close>

lemma sign_clear_iff:
  fixes w :: "'a::len word"
  shows "\<not> bit w (LENGTH('a) - 1) \<longleftrightarrow> unat w < 2 ^ (LENGTH('a) - 1)"
proof
  assume nb: "\<not> bit w (LENGTH('a) - 1)"
  have "unat w < 2 ^ LENGTH('a)" by (rule unsigned_less)
  then have "unat w < 2 ^ Suc (LENGTH('a) - 1)" by simp
  then have "bit w (LENGTH('a) - 1)" if "2 ^ (LENGTH('a) - 1) \<le> unat w"
    using that by (rule top_bit_set [rotated])
  with nb show "unat w < 2 ^ (LENGTH('a) - 1)" by (meson not_le)
next
  assume "unat w < 2 ^ (LENGTH('a) - 1)"
  with bit_imp_le_unat [of w "LENGTH('a) - 1"] show "\<not> bit w (LENGTH('a) - 1)"
    by (meson not_le)
qed

lemma sint_eq_unat:
  fixes w :: "'a::len word"
  assumes "unat w < 2 ^ (LENGTH('a) - 1)"
  shows "sint w = int (unat w)"
proof -
  have "int (unat w) < int (2 ^ (LENGTH('a) - 1))" using assms by (simp only: of_nat_less_iff)
  then have "uint w < 2 ^ (LENGTH('a) - 1)" by simp
  moreover have "- (2 ^ (LENGTH('a) - 1)) \<le> uint w"
    by (rule order_trans [of _ 0]) simp_all
  ultimately have "signed_take_bit (LENGTH('a) - 1) (uint w) = uint w"
    by (rule signed_take_bit_int_eq_self [rotated])
  then show ?thesis by (simp add: sint_uint)
qed

lemma sint_pos_imp_small:
  fixes w :: "'a::len word"
  assumes "0 \<le> sint w"
  shows "unat w < 2 ^ (LENGTH('a) - 1)"
proof -
  have "\<not> bit w (LENGTH('a) - Suc 0)" using assms by (simp add: bit_last_iff)
  then have "\<not> bit w (LENGTH('a) - 1)" by simp
  then show ?thesis by (simp only: sign_clear_iff)
qed

lemma smear_signed:
  fixes z :: "'a::len word"
  assumes "\<not> bit z (LENGTH('a) - 1)" and "0 < k"
  shows "z OR signed_drop_bit k z = z OR drop_bit k z"
    and "\<not> bit (z OR drop_bit k z) (LENGTH('a) - 1)"
proof -
  have "signed_drop_bit k z = drop_bit k z"
  proof (rule bit_eqI)
    fix n
    show "bit (signed_drop_bit k z) n = bit (drop_bit k z) n"
    proof (cases "LENGTH('a) - k \<le> n \<and> n < LENGTH('a)")
      case True
      then have "\<not> k + n < LENGTH('a)" by auto
      then have "\<not> bit z (k + n)" using bit_imp_le_length [of z "k + n"] by blast
      with True assms(1) show ?thesis
        by (simp add: bit_signed_drop_bit_iff bit_drop_bit_eq)
    next
      case False
      then show ?thesis by (auto simp add: bit_signed_drop_bit_iff bit_drop_bit_eq)
    qed
  qed
  then show "z OR signed_drop_bit k z = z OR drop_bit k z" by simp
  have "\<not> k + (LENGTH('a) - 1) < LENGTH('a)" using assms(2) by auto
  then have "\<not> bit z (k + (LENGTH('a) - 1))"
    using bit_imp_le_length [of z "k + (LENGTH('a) - 1)"] by blast
  with assms(1) show "\<not> bit (z OR drop_bit k z) (LENGTH('a) - 1)"
    by (simp add: bit_or_iff bit_drop_bit_eq)
qed

lemma pos_signed:
  fixes x :: "'a::len word"
  assumes "0 <s x"
  shows "0 < x" and "unat x < 2 ^ (LENGTH('a) - 1)" and "sint x = int (unat x)"
    and "\<not> bit (x - 1) (LENGTH('a) - 1)"
proof -
  have sx: "0 < sint x" using assms by (simp add: word_sless_alt)
  then show small: "unat x < 2 ^ (LENGTH('a) - 1)" by (intro sint_pos_imp_small) simp
  then show eq: "sint x = int (unat x)" by (rule sint_eq_unat)
  with sx have "0 < int (unat x)" by (simp only:)
  then have "0 < unat x" by (simp only: of_nat_0_less_iff)
  then show pos: "0 < x" by (simp add: word_less_nat_alt)
  then have "x \<noteq> 0" by auto
  then have "unat (x - 1) = unat x - 1" by (rule unat_minus_one)
  with small have "unat (x - 1) < 2 ^ (LENGTH('a) - 1)" by simp
  then show "\<not> bit (x - 1) (LENGTH('a) - 1)" by (simp only: sign_clear_iff)
qed

lemma next_pow2_signed_eq:
  fixes x :: "'a::len word"
  assumes "0 <s x"
  shows "next_pow2_signed x = next_pow2 x"
proof -
  note p = pos_signed [OF assms]
  note s1 = smear_signed [OF p(4) zero_less_numeral, of "num.Bit0 (num.Bit0 (num.Bit0 (num.Bit0 num.One)))"]
  note s2 = smear_signed [OF s1(2) zero_less_numeral, of "num.Bit0 (num.Bit0 (num.Bit0 num.One))"]
  note s3 = smear_signed [OF s2(2) zero_less_numeral, of "num.Bit0 (num.Bit0 num.One)"]
  note s4 = smear_signed [OF s3(2) zero_less_numeral, of "num.Bit0 num.One"]
  note s5 = smear_signed [OF s4(2) zero_less_one]
  show ?thesis
    unfolding next_pow2_signed_def next_pow2_def Let_def
    using assms p(1) by (simp only: s1(1) s2(1) s3(1) s4(1) s5(1) if_True)
qed

lemma next_pow2_int64_eq:
  assumes "0 <s x"
  shows "next_pow2_int64 x = next_pow2_uint64 x"
proof -
  note p = pos_signed [OF assms]
  note s0 = smear_signed [OF p(4) zero_less_numeral, of "num.Bit0 (num.Bit0 (num.Bit0 (num.Bit0 (num.Bit0 num.One))))"]
  note s1 = smear_signed [OF s0(2) zero_less_numeral, of "num.Bit0 (num.Bit0 (num.Bit0 (num.Bit0 num.One)))"]
  note s2 = smear_signed [OF s1(2) zero_less_numeral, of "num.Bit0 (num.Bit0 (num.Bit0 num.One))"]
  note s3 = smear_signed [OF s2(2) zero_less_numeral, of "num.Bit0 (num.Bit0 num.One)"]
  note s4 = smear_signed [OF s3(2) zero_less_numeral, of "num.Bit0 num.One"]
  note s5 = smear_signed [OF s4(2) zero_less_one]
  show ?thesis
    unfolding next_pow2_int64_def next_pow2_uint64_def Let_def
    using assms p(1) by (simp only: s0(1) s1(1) s2(1) s3(1) s4(1) s5(1) if_True)
qed

lemma le_exp_unat:
  fixes x :: "'a::len word"
  assumes "x \<le> 2 ^ (LENGTH('a) - 1)"
  shows "unat x \<le> 2 ^ (LENGTH('a) - 1)"
proof -
  have "unat x \<le> unat (2 ^ (LENGTH('a) - 1) :: 'a word)"
    using assms by (simp only: word_le_nat_alt)
  then show ?thesis by (simp add: unat_exp)
qed

lemma next_pow2_unsigned:
  fixes x :: "'a::len word"
  assumes len: "LENGTH('a) \<le> 32" and pos: "0 < x" and le: "unat x \<le> 2 ^ (LENGTH('a) - 1)"
  shows "\<exists>r. next_pow2 x = Some r \<and> is_pow2 r \<and> unat x \<le> unat r \<and>
    unat r < 2 * unat x \<and> (is_pow2 x \<longrightarrow> r = x)"
proof -
  define z1 where "z1 = (x - 1) OR drop_bit 16 (x - 1)"
  define z2 where "z2 = z1 OR drop_bit 8 z1"
  define z3 where "z3 = z2 OR drop_bit 4 z2"
  define z4 where "z4 = z3 OR drop_bit 2 z3"
  define z5 where "z5 = z4 OR drop_bit 1 z4"
  have r: "next_pow2 x = Some (z5 + 1)"
    using pos by (simp only: next_pow2_def Let_def z1_def z2_def z3_def z4_def z5_def if_True)
  have "\<forall>i. bit z5 i \<longleftrightarrow> (\<exists>j<32. bit (x - 1) (i + j))"
    unfolding z5_def z4_def z3_def z2_def z1_def by (rule smear5_bits)
  then have z: "bit z5 i \<longleftrightarrow> 2 ^ i \<le> unat (x - 1)" for i
    using len by (rule covered_bits)
  from pos have "x \<noteq> 0" by auto
  from next_pow2_core [of z5 x, OF z this le] r show ?thesis by simp
qed

lemma next_pow2_uint64_spec:
  assumes pos: "0 < x" and le: "unat x \<le> 2 ^ 63"
  shows "\<exists>r. next_pow2_uint64 x = Some r \<and> is_pow2 r \<and> unat x \<le> unat r \<and>
    unat r < 2 * unat x \<and> (is_pow2 x \<longrightarrow> r = x)"
proof -
  define z0 where "z0 = (x - 1) OR drop_bit 32 (x - 1)"
  define z1 where "z1 = z0 OR drop_bit 16 z0"
  define z2 where "z2 = z1 OR drop_bit 8 z1"
  define z3 where "z3 = z2 OR drop_bit 4 z2"
  define z4 where "z4 = z3 OR drop_bit 2 z3"
  define z5 where "z5 = z4 OR drop_bit 1 z4"
  have r: "next_pow2_uint64 x = Some (z5 + 1)"
    using pos by (simp only: next_pow2_uint64_def Let_def z0_def z1_def z2_def z3_def z4_def z5_def if_True)
  have "\<forall>i. bit z5 i \<longleftrightarrow> (\<exists>j<64. bit (x - 1) (i + j))"
    unfolding z5_def z4_def z3_def z2_def z1_def z0_def by (rule smear6_bits)
  then have z: "bit z5 i \<longleftrightarrow> 2 ^ i \<le> unat (x - 1)" for i
    by (rule covered_bits) simp
  from pos have "x \<noteq> 0" by auto
  have "unat x \<le> 2 ^ (LENGTH(64) - 1)" using le by simp
  from next_pow2_core [of z5 x, OF z \<open>x \<noteq> 0\<close> this] r show ?thesis by simp
qed

text \<open>From unsigned to signed readings, for a positive input of at most a quarter of the range.\<close>

lemma signed_reading:
  fixes x r :: "'a::len word"
  assumes pos: "0 <s x" and le: "x \<le>s 2 ^ (LENGTH('a) - 2)"
    and r: "unat x \<le> unat r" "unat r < 2 * unat x"
  shows "x \<le>s r" and "sint r < 2 * sint x"
proof -
  note p = pos_signed [OF pos]
  have l2: "2 \<le> LENGTH('a)"
  proof (rule ccontr)
    assume "\<not> 2 \<le> LENGTH('a)"
    then have "LENGTH('a) = 1" using len_gt_0 [where 'a = 'a] by linarith
    with p(2) have "unat x = 0" by simp
    with p(1) show False by (simp add: word_less_nat_alt)
  qed
  then have "LENGTH('a) - 2 < LENGTH('a) - 1" by simp
  have small2: "unat (2 ^ (LENGTH('a) - 2) :: 'a word) = 2 ^ (LENGTH('a) - 2)"
    using l2 by (intro unat_exp) simp
  have "(2::nat) ^ (LENGTH('a) - 2) < 2 ^ (LENGTH('a) - 1)"
    using l2 by (intro power_strict_increasing) simp_all
  with small2 have "sint (2 ^ (LENGTH('a) - 2) :: 'a word) = int (2 ^ (LENGTH('a) - 2))"
    by (simp only: sint_eq_unat)
  with le p(3) have "int (unat x) \<le> int (2 ^ (LENGTH('a) - 2))"
    by (simp only: word_sle_eq)
  then have ux: "unat x \<le> 2 ^ (LENGTH('a) - 2)" by (simp only: of_nat_le_iff)
  have "2 * (2::nat) ^ (LENGTH('a) - 2) = 2 ^ Suc (LENGTH('a) - 2)" by simp
  also have "Suc (LENGTH('a) - 2) = LENGTH('a) - 1" using l2 by simp
  finally have "unat r < 2 ^ (LENGTH('a) - 1)" using r(2) ux by simp
  then have sr: "sint r = int (unat r)" by (rule sint_eq_unat)
  show "x \<le>s r" using r(1) by (simp only: word_sle_eq sr p(3) of_nat_le_iff)
  have "int (unat r) < int (2 * unat x)" using r(2) by (simp only: of_nat_less_iff)
  then show "sint r < 2 * sint x" by (simp only: sr p(3) of_nat_mult of_nat_numeral)
qed

lemma signed_quarter:
  fixes x :: "'a::len word"
  assumes pos: "0 <s x" and le: "x \<le>s 2 ^ (LENGTH('a) - 2)"
  shows "unat x \<le> 2 ^ (LENGTH('a) - 1)"
  using pos_signed(2) [OF pos] by simp

subsection \<open>Claims about the power-of-two helpers\<close>

text \<open>
  Claim C9.  \<open>is_pow2(0)\<close> is true, at every integer type: the test \<open>(x & (x - 1)) == 0\<close>
  holds at zero because the conjunction with zero is zero.
\<close>

theorem is_pow2_zero: "is_pow2 (0 :: 'a::len word)"
  by (simp add: is_pow2_def)

text \<open>
  Claim C3, as amended.  For every \<open>x > 0\<close> whose next power of two the type can represent
  (\<open>x \<le> 2^(w-1)\<close> for an unsigned type of \<open>w\<close> bits, \<open>x \<le> 2^(w-2)\<close> for a signed one),
  \<open>next_pow2(x)\<close> returns a power of two, \<open>next_pow2(x) \<ge> x\<close>, \<open>next_pow2(x) < 2*x\<close>, and
  \<open>next_pow2(x) == x\<close> exactly when \<open>x\<close> is a power of two.  This holds for the generic
  template at every width up to 32 bits, unsigned and signed, and for the \<open>uint64\<close> and
  \<open>int64\<close> specialisations.  The products \<open>2*x\<close> are taken in the integers.
\<close>

theorem next_pow2_representable:
  fixes x :: "'a::len word" and s :: "'b::len word" and u v :: "64 word"
  shows
   "(LENGTH('a) \<le> 32 \<and> 0 < x \<and> x \<le> 2 ^ (LENGTH('a) - 1) \<longrightarrow>
       (\<exists>r. next_pow2 x = Some r \<and> is_pow2 r \<and> x \<le> r \<and> unat r < 2 * unat x \<and>
            is_pow2 x = (r = x))) \<and>
    (LENGTH('b) \<le> 32 \<and> 0 <s s \<and> s \<le>s 2 ^ (LENGTH('b) - 2) \<longrightarrow>
       (\<exists>r. next_pow2_signed s = Some r \<and> is_pow2 r \<and> s \<le>s r \<and> sint r < 2 * sint s \<and>
            is_pow2 s = (r = s))) \<and>
    (0 < u \<and> u \<le> 2 ^ 63 \<longrightarrow>
       (\<exists>r. next_pow2_uint64 u = Some r \<and> is_pow2 r \<and> u \<le> r \<and> unat r < 2 * unat u \<and>
            is_pow2 u = (r = u))) \<and>
    (0 <s v \<and> v \<le>s 2 ^ 62 \<longrightarrow>
       (\<exists>r. next_pow2_int64 v = Some r \<and> is_pow2 r \<and> v \<le>s r \<and> sint r < 2 * sint v \<and>
            is_pow2 v = (r = v)))"
proof (intro conjI impI; elim conjE)
  assume a: "LENGTH('a) \<le> 32" "0 < x" "x \<le> 2 ^ (LENGTH('a) - 1)"
  from next_pow2_unsigned [OF a(1,2) le_exp_unat [OF a(3)]]
  show "\<exists>r. next_pow2 x = Some r \<and> is_pow2 r \<and> x \<le> r \<and> unat r < 2 * unat x \<and>
            is_pow2 x = (r = x)"
    by (auto simp add: word_le_nat_alt)
next
  assume a: "LENGTH('b) \<le> 32" "0 <s s" "s \<le>s 2 ^ (LENGTH('b) - 2)"
  from next_pow2_unsigned [OF a(1) pos_signed(1) [OF a(2)] signed_quarter [OF a(2,3)]]
  obtain r where r: "next_pow2 s = Some r" "is_pow2 r" "unat s \<le> unat r"
    "unat r < 2 * unat s" "is_pow2 s \<longrightarrow> r = s" by blast
  from signed_reading [OF a(2,3) r(3,4)] r next_pow2_signed_eq [OF a(2)] 
  show "\<exists>r. next_pow2_signed s = Some r \<and> is_pow2 r \<and> s \<le>s r \<and> sint r < 2 * sint s \<and>
            is_pow2 s = (r = s)"
    by auto
next
  assume a: "0 < u" "u \<le> 2 ^ 63"
  from le_exp_unat [of u] a(2) have "unat u \<le> 2 ^ 63" by simp
  from next_pow2_uint64_spec [OF a(1) this]
  show "\<exists>r. next_pow2_uint64 u = Some r \<and> is_pow2 r \<and> u \<le> r \<and> unat r < 2 * unat u \<and>
            is_pow2 u = (r = u)"
    by (auto simp add: word_le_nat_alt)
next
  assume a: "0 <s v" "v \<le>s 2 ^ 62"
  have a3: "v \<le>s 2 ^ (LENGTH(64) - 2)" using a(2) by simp
  from signed_quarter [OF a(1) a3] have "unat v \<le> 2 ^ 63" by simp
  from next_pow2_uint64_spec [OF pos_signed(1) [OF a(1)] this]
  obtain r where r: "next_pow2_uint64 v = Some r" "is_pow2 r" "unat v \<le> unat r"
    "unat r < 2 * unat v" "is_pow2 v \<longrightarrow> r = v" by blast
  from signed_reading [OF a(1) a3 r(3,4)] r next_pow2_int64_eq [OF a(1)] 
  show "\<exists>r. next_pow2_int64 v = Some r \<and> is_pow2 r \<and> v \<le>s r \<and> sint r < 2 * sint v \<and>
            is_pow2 v = (r = v)"
    by auto
qed

text \<open>The four instances at 5 (32 bits), 8 (16 bits, signed), \<open>2^40 + 1\<close> and \<open>2^62\<close>.\<close>

theorem next_pow2_representable_witness:
  "(next_pow2 (5 :: 32 word) = Some 8 \<and> is_pow2 (8 :: 32 word) \<and> \<not> is_pow2 (5 :: 32 word)) \<and>
   (next_pow2_signed (8 :: 16 word) = Some 8 \<and> is_pow2 (8 :: 16 word)) \<and>
   (next_pow2_uint64 (2 ^ 40 + 1) = Some (2 ^ 41) \<and> is_pow2 (2 ^ 41 :: 64 word)) \<and>
   (next_pow2_int64 (2 ^ 62) = Some (2 ^ 62) \<and> is_pow2 (2 ^ 62 :: 64 word))"
  using next_pow2_representable [of "5 :: 32 word" "8 :: 16 word" "2 ^ 40 + 1" "2 ^ 62"]
  by (simp add: next_pow2_def next_pow2_signed_def next_pow2_uint64_def next_pow2_int64_def is_pow2_def
      word_sless_alt word_sle_eq)

text \<open>
  Claim C3 as stated, for every \<open>x > 0\<close>, fails above half of the unsigned range: the
  increment wraps to 0, which is smaller than \<open>x\<close>.
\<close>

theorem next_pow2_overflow_counterexample:
  "0 < (0x80000001 :: 32 word) \<and> next_pow2 (0x80000001 :: 32 word) = Some 0 \<and>
   \<not> (0x80000001 :: 32 word) \<le> 0 \<and>
   0 < (0x8000000000000001 :: 64 word) \<and> next_pow2_uint64 0x8000000000000001 = Some 0"
  by (simp add: next_pow2_def next_pow2_uint64_def)

section \<open>Floating point: proofs\<close>

subsection \<open>The exponent of a rational\<close>

lemma two_powi_less_iff: "(2::rat) powi m < 2 powi n \<longleftrightarrow> m < n"
proof
  assume l: "(2::rat) powi m < 2 powi n"
  show "m < n"
  proof (rule ccontr)
    assume "\<not> m < n"
    then have "n \<le> m" by simp
    then have "(2::rat) powi n \<le> 2 powi m" by (rule power_int_increasing) simp
    with l show False by simp
  qed
next
  assume "m < n"
  then show "(2::rat) powi m < 2 powi n" by (rule power_int_strict_increasing) simp
qed

lemma two_powi_le_iff: "(2::rat) powi m \<le> 2 powi n \<longleftrightarrow> m \<le> n"
  using two_powi_less_iff [of n m] by (simp add: not_less [symmetric])

lemma bitlen_powi_bounds:
  assumes "0 < a"
  shows "(2::rat) powi (bitlen a - 1) \<le> of_int a" and "of_int a < (2::rat) powi (bitlen a)"
proof -
  from bitlen_bounds [OF assms] have b: "2 ^ nat (bitlen a - 1) \<le> a" "a < 2 ^ nat (bitlen a)"
    by simp_all
  have pos: "0 < bitlen a" using assms bitlen_eq_zero_iff [of a] bitlen_nonneg [of a] by linarith
  have "(2::rat) powi (bitlen a - 1) = 2 ^ nat (bitlen a - 1)"
    using pos by (simp add: power_int_def)
  also have "\<dots> = of_int (2 ^ nat (bitlen a - 1))" by simp
  also have "\<dots> \<le> of_int a" using b(1) by (simp only: of_int_le_iff)
  finally show "(2::rat) powi (bitlen a - 1) \<le> of_int a" .
  have "(of_int a :: rat) < of_int (2 ^ nat (bitlen a))" using b(2) by (simp only: of_int_less_iff)
  also have "\<dots> = 2 ^ nat (bitlen a)" by simp
  also have "\<dots> = (2::rat) powi (bitlen a)" using pos by (simp add: power_int_def)
  finally show "of_int a < (2::rat) powi (bitlen a)" .
qed

lemma ilog2_bounds:
  assumes "0 < q"
  shows "2 powi (ilog2 q) \<le> q" and "q < 2 powi (ilog2 q + 1)"
proof -
  obtain a b where ab: "quotient_of q = (a, b)" by (cases "quotient_of q")
  then have b: "0 < b" and q: "q = of_int a / of_int b"
    by (simp_all add: quotient_of_denom_pos quotient_of_div)
  have a: "0 < a" using assms b q by (simp add: zero_less_divide_iff)
  define d where "d = bitlen a - bitlen b"
  note ba = bitlen_powi_bounds [OF a] and bb = bitlen_powi_bounds [OF b]
  have rb: "(0::rat) < of_int b" using b by simp
  have "q < 2 powi (bitlen a) / 2 powi (bitlen b - 1)"
    unfolding q using ba(2) bb(1) rb a
    by (intro frac_less) (simp_all add: less_imp_le)
  also have "\<dots> = 2 powi (bitlen a - (bitlen b - 1))"
    by (rule power_int_diff [symmetric]) simp
  also have "bitlen a - (bitlen b - 1) = d + 1" by (simp add: d_def)
  finally have up: "q < 2 powi (d + 1)" .
  have "d - 1 = bitlen a - 1 - bitlen b" by (simp add: d_def)
  then have "(2::rat) powi (d - 1) = 2 powi (bitlen a - 1 - bitlen b)" by (simp only:)
  also have "\<dots> = 2 powi (bitlen a - 1) / 2 powi (bitlen b)"
    by (rule power_int_diff) simp
  also have "\<dots> \<le> q"
    unfolding q using ba(1) bb(2) rb a
    by (intro frac_le) (simp_all add: less_imp_le)
  finally have lo: "2 powi (d - 1) \<le> q" .
  have il: "ilog2 q = (if 2 powi d \<le> q then d else d - 1)"
    by (simp add: ilog2_def ab d_def Let_def)
  show "2 powi (ilog2 q) \<le> q" using lo by (simp add: il)
  show "q < 2 powi (ilog2 q + 1)" using up by (auto simp add: il not_le)
qed

lemma ilog2_unique:
  assumes "2 powi e \<le> q" "q < 2 powi (e + 1)"
  shows "ilog2 q = e"
proof -
  have "(0::rat) < 2 powi e" by simp
  then have q: "0 < q" using assms(1) by (rule less_le_trans)
  note b = ilog2_bounds [OF q]
  have "(2::rat) powi e < 2 powi (ilog2 q + 1)" using assms(1) b(2) by (rule le_less_trans)
  then have "e < ilog2 q + 1" by (simp add: two_powi_less_iff)
  moreover have "(2::rat) powi (ilog2 q) < 2 powi (e + 1)" using b(1) assms(2) by (rule le_less_trans)
  then have "ilog2 q < e + 1" by (simp add: two_powi_less_iff)
  ultimately show ?thesis by simp
qed

lemma ilog2_mono:
  assumes "0 < q" "q \<le> r"
  shows "ilog2 q \<le> ilog2 r"
proof -
  have r: "0 < r" using assms by simp
  have "(2::rat) powi (ilog2 q) \<le> q" using assms(1) by (rule ilog2_bounds)
  also have "q \<le> r" by fact
  also have "r < 2 powi (ilog2 r + 1)" using r by (rule ilog2_bounds)
  finally have "ilog2 q < ilog2 r + 1" by (simp add: two_powi_less_iff)
  then show ?thesis by simp
qed

subsection \<open>Rounding to an integer\<close>

lemma rne_cases:
  "rne r = \<lfloor>r\<rfloor> \<or> rne r = \<lfloor>r\<rfloor> + 1"
  by (simp add: rne_def Let_def)

lemma rne_of_int [simp]: "rne (of_int k) = k"
  by (simp add: rne_def)

lemma rne_near:
  "of_int (rne r) - 1 / 2 \<le> r \<and> r \<le> of_int (rne r) + 1 / 2"
proof -
  define f where "f = \<lfloor>r\<rfloor>"
  have f: "of_int f \<le> r" "r < of_int f + 1" unfolding f_def by linarith+
  consider "r - of_int f < 1 / 2" | "1 / 2 < r - of_int f" | "r - of_int f = 1 / 2"
    by linarith
  then show ?thesis
  proof cases
    case 1
    then have "rne r = f" by (simp add: rne_def Let_def f_def)
    with 1 f show ?thesis by simp
  next
    case 2
    then have "rne r = f + 1" by (simp add: rne_def Let_def f_def)
    with 2 f show ?thesis by simp
  next
    case 3
    then have "rne r = f \<or> rne r = f + 1" by (simp add: rne_def Let_def f_def)
    with 3 show ?thesis by auto
  qed
qed

lemma rne_lower: "of_int (rne r) - 1 / 2 \<le> r"
  using rne_near [of r] by simp

lemma rne_upper: "r \<le> of_int (rne r) + 1 / 2"
  using rne_near [of r] by simp

lemma rne_le_int:
  assumes "r \<le> of_int k" shows "rne r \<le> k"
proof (cases "r = of_int k")
  case True then show ?thesis by simp
next
  case False
  with assms have "r < of_int k" by simp
  then have "\<lfloor>r\<rfloor> < k" by (simp add: floor_less_iff)
  with rne_cases [of r] show ?thesis by auto
qed

lemma rne_ge_int:
  assumes "of_int k \<le> r" shows "k \<le> rne r"
proof -
  from assms have "k \<le> \<lfloor>r\<rfloor>" by (simp add: le_floor_iff)
  with rne_cases [of r] show ?thesis by auto
qed

lemma rne_mono:
  assumes "r \<le> s" shows "rne r \<le> rne s"
proof (cases "\<lfloor>r\<rfloor> = \<lfloor>s\<rfloor>")
  case True
  then have "r - of_int \<lfloor>r\<rfloor> \<le> s - of_int \<lfloor>s\<rfloor>" using assms by simp
  then show ?thesis using True by (auto simp add: rne_def Let_def)
next
  case False
  moreover have "\<lfloor>r\<rfloor> \<le> \<lfloor>s\<rfloor>" using assms by (rule floor_mono)
  ultimately have "\<lfloor>r\<rfloor> + 1 \<le> \<lfloor>s\<rfloor>" by simp
  with rne_cases [of r] rne_cases [of s] show ?thesis by auto
qed

lemma rne_nonneg: "0 \<le> r \<Longrightarrow> 0 \<le> rne r"
  using rne_ge_int [of 0 r] by simp

lemma rne_nearest:
  assumes "2 * of_int m - 1 < 2 * r" "2 * r < 2 * of_int m + 1"
  shows "rne r = m"
proof -
  have "of_int (rne r) < of_int m + (1::rat)" using rne_lower [of r] assms(2) by linarith
  then have "rne r < m + 1" by (metis of_int_1 of_int_add of_int_less_iff)
  moreover have "of_int m - (1::rat) < of_int (rne r)" using rne_upper [of r] assms(1) by linarith
  then have "m - 1 < rne r" by (metis of_int_1 of_int_diff of_int_less_iff)
  ultimately show ?thesis by simp
qed

lemma rne_tie:
  assumes "2 * r = 2 * of_int m + 1"
  shows "rne r = (if even m then m else m + 1)"
proof -
  have r: "r = of_int m + 1 / 2" using assms by (simp add: field_simps)
  have "\<lfloor>r\<rfloor> = m" unfolding r by (rule floor_unique) simp_all
  then show ?thesis by (simp add: rne_def Let_def r)
qed

subsection \<open>Rounding to a format\<close>

lemma quantum_pos: "0 < quantum fmt q"
  by (simp add: quantum_def)

lemma quantum_minus: "quantum fmt (- q) = quantum fmt q"
  by (simp add: quantum_def)

lemma rnd_zero [simp]: "rnd fmt 0 = Fin 0"
  by (simp add: rnd_def)

lemma rnd_minus: "rnd fmt (- q) = fneg (rnd fmt q)"
proof (cases "q = 0")
  case True then show ?thesis by simp
next
  case False
  then consider "0 < q" | "q < 0" by linarith
  then show ?thesis
    by cases (simp_all add: rnd_def Let_def quantum_minus)
qed

lemma rnd_pos_unfold:
  assumes "0 < q"
  shows "rnd fmt q =
    (if 2 powi (emax fmt + 1) \<le> of_int (rne (q / quantum fmt q)) * quantum fmt q then PInf
     else Fin (of_int (rne (q / quantum fmt q)) * quantum fmt q))"
  using assms by (simp add: rnd_def Let_def)

lemma rnd_pos_cases:
  assumes "0 < q"
  shows "rnd fmt q = PInf \<or> (\<exists>r. rnd fmt q = Fin r \<and> 0 \<le> r)"
proof -
  have "0 \<le> q / quantum fmt q" using assms quantum_pos [of fmt q] by simp
  then have "0 \<le> rne (q / quantum fmt q)" by (rule rne_nonneg)
  then have "(0::rat) \<le> of_int (rne (q / quantum fmt q)) * quantum fmt q"
    using quantum_pos [of fmt q] by simp
  then show ?thesis by (simp add: rnd_pos_unfold [OF assms])
qed

lemma rnd_neg_cases:
  assumes "q < 0"
  shows "rnd fmt q = NInf \<or> (\<exists>r. rnd fmt q = Fin r \<and> r \<le> 0)"
proof -
  have "0 < - q" using assms by simp
  from rnd_pos_cases [OF this, of fmt] have "fneg (rnd fmt q) = PInf \<or> (\<exists>r. fneg (rnd fmt q) = Fin r \<and> 0 \<le> r)"
    by (simp only: rnd_minus)
  then show ?thesis by (cases "rnd fmt q") auto
qed

lemma rnd_nonneg_cases:
  assumes "0 \<le> q"
  shows "rnd fmt q = PInf \<or> (\<exists>r. rnd fmt q = Fin r \<and> 0 \<le> r)"
  using assms rnd_pos_cases [of q fmt] by (cases "q = 0") auto

lemma rnd_nonpos_cases:
  assumes "q \<le> 0"
  shows "rnd fmt q = NInf \<or> (\<exists>r. rnd fmt q = Fin r \<and> r \<le> 0)"
  using assms rnd_neg_cases [of q fmt] by (cases "q = 0") auto

text \<open>A certificate for the rounding of a positive rational, checked by arithmetic.\<close>

lemma quantum_eq:
  assumes "2 powi e \<le> q" "q < 2 powi (e + 1)"
  shows "quantum fmt q = 2 powi (max e (1 - emax fmt) - (int (prec fmt) - 1))"
proof -
  have "(0::rat) < 2 powi e" by simp
  then have "0 < q" using assms(1) by (rule less_le_trans)
  then have "\<bar>q\<bar> = q" by simp
  with ilog2_unique [OF assms] show ?thesis by (simp add: quantum_def)
qed

lemma rnd_eval:
  assumes "2 powi e \<le> q" "q < 2 powi (e + 1)"
    and "k = max e (1 - emax fmt) - (int (prec fmt) - 1)"
    and "rne (q / 2 powi k) = m"
    and "(of_int m :: rat) * 2 powi k < 2 powi (emax fmt + 1)"
  shows "rnd fmt q = Fin (of_int m * 2 powi k)"
proof -
  have "(0::rat) < 2 powi e" by simp
  then have q: "0 < q" using assms(1) by (rule less_le_trans)
  have u: "quantum fmt q = 2 powi k" using quantum_eq [OF assms(1,2)] assms(3) by simp
  show ?thesis using assms(4,5) by (simp add: rnd_pos_unfold [OF q] u not_le)
qed

lemma rnd_nearest:
  assumes "2 powi e \<le> q" "q < 2 powi (e + 1)"
    and "k = max e (1 - emax fmt) - (int (prec fmt) - 1)"
    and "2 * of_int m - 1 < 2 * (q / 2 powi k)" "2 * (q / 2 powi k) < 2 * of_int m + 1"
    and "(of_int m :: rat) * 2 powi k < 2 powi (emax fmt + 1)"
  shows "rnd fmt q = Fin (of_int m * 2 powi k)"
  using assms(1,2,3) rne_nearest [OF assms(4,5)] assms(6) by (rule rnd_eval)

lemma rnd_tie:
  assumes "2 powi e \<le> q" "q < 2 powi (e + 1)"
    and "k = max e (1 - emax fmt) - (int (prec fmt) - 1)"
    and "2 * (q / 2 powi k) = 2 * of_int f + 1"
    and "m = (if even f then f else f + 1)"
    and "(of_int m :: rat) * 2 powi k < 2 powi (emax fmt + 1)"
  shows "rnd fmt q = Fin (of_int m * 2 powi k)"
  using assms(1,2,3) _ assms(6)
proof (rule rnd_eval)
  show "rne (q / 2 powi k) = m" using rne_tie [OF assms(4)] assms(5) by simp
qed

text \<open>Values \<open>m * 2^k\<close> with a short significand are values of the format.\<close>

lemma rnd_exact_pos:
  assumes q: "q = of_int m * 2 powi k" and m: "0 < m" "m < 2 ^ prec fmt"
    and k: "1 - emax fmt - (int (prec fmt) - 1) \<le> k"
    and b: "q < 2 powi (emax fmt + 1)"
  shows "rnd fmt q = Fin q"
proof -
  have qpos: "0 < q" unfolding q using m(1) by simp
  define e where "e = ilog2 q"
  define kq where "kq = max e (1 - emax fmt) - (int (prec fmt) - 1)"
  have u: "quantum fmt q = 2 powi kq" using qpos by (simp add: quantum_def kq_def e_def)
  have "(of_int m :: rat) < of_int (2 ^ prec fmt)" using m(2) by (simp only: of_int_less_iff)
  then have "(of_int m :: rat) < 2 powi (int (prec fmt))" by simp
  then have "q < 2 powi (int (prec fmt)) * 2 powi k" unfolding q by simp
  also have "\<dots> = 2 powi (int (prec fmt) + k)" by (simp add: power_int_add)
  finally have qlt: "q < 2 powi (int (prec fmt) + k)" .
  have "2 powi e \<le> q" unfolding e_def using qpos by (rule ilog2_bounds)
  then have "2 powi e < (2::rat) powi (int (prec fmt) + k)"
    using qlt by (rule le_less_trans)
  then have "e < int (prec fmt) + k" by (simp only: two_powi_less_iff)
  with k have "kq \<le> k" by (simp add: kq_def)
  define j where "j = nat (k - kq)"
  have kj: "k = kq + int j" using \<open>kq \<le> k\<close> by (simp add: j_def)
  have "q / 2 powi kq = of_int m * 2 powi (int j)"
    unfolding q kj by (simp add: power_int_add)
  also have "\<dots> = of_int (m * 2 ^ j)" by simp
  finally have d: "q / 2 powi kq = of_int (m * 2 ^ j)" .
  have "rne (q / 2 powi kq) = m * 2 ^ j" unfolding d by (rule rne_of_int)
  then have "of_int (rne (q / 2 powi kq)) * 2 powi kq = q / 2 powi kq * 2 powi kq"
    by (simp only: d)
  also have "\<dots> = q" by simp
  finally have "of_int (rne (q / 2 powi kq)) * 2 powi kq = q" .
  then show ?thesis using b by (simp add: rnd_pos_unfold [OF qpos] u not_le)
qed

lemma rnd_exact:
  assumes q: "q = of_int m * 2 powi k" and m: "\<bar>m\<bar> < 2 ^ prec fmt"
    and k: "1 - emax fmt - (int (prec fmt) - 1) \<le> k"
    and b: "\<bar>q\<bar> < 2 powi (emax fmt + 1)"
  shows "rnd fmt q = Fin q"
proof -
  consider "m = 0" | "0 < m" | "m < 0" by linarith
  then show ?thesis
  proof cases
    case 1 then show ?thesis using q by simp
  next
    case 2
    then have "0 < q" unfolding q by simp
    with rnd_exact_pos [OF q 2 _ k] m b show ?thesis by simp
  next
    case 3
    then have n: "q < 0" unfolding q by (simp add: mult_neg_pos)
    have "- q = of_int (- m) * 2 powi k" unfolding q by simp
    from rnd_exact_pos [OF this _ _ k] 3 m b n have "rnd fmt (- q) = Fin (- q)" by simp
    then show ?thesis by (cases "rnd fmt q") (simp_all add: rnd_minus)
  qed
qed

subsection \<open>Particular roundings\<close>

lemma rnd64_1em10: "rnd binary64 (1 / 10 ^ 10) = Fin (7737125245533627 / 2 ^ 86)"
proof -
  have "rnd binary64 (1 / 10 ^ 10) = Fin (of_int 7737125245533627 * 2 powi (- 86))"
    by (rule rnd_nearest [where e = "- 34"]) (simp_all add: binary64_def)
  then show ?thesis by (simp add: power_int_minus_divide)
qed

lemma rnd64_1em6: "rnd binary64 (1 / 10 ^ 6) = Fin (4722366482869645 / 2 ^ 72)"
proof -
  have "rnd binary64 (1 / 10 ^ 6) = Fin (of_int 4722366482869645 * 2 powi (- 72))"
    by (rule rnd_nearest [where e = "- 20"]) (simp_all add: binary64_def)
  then show ?thesis by (simp add: power_int_minus_divide)
qed

lemma rnd64_1_minus_1em6:
  "rnd binary64 (1 - 4722366482869645 / 2 ^ 72) = Fin (9007190247541737 / 2 ^ 53)"
proof -
  have "rnd binary64 (1 - 4722366482869645 / 2 ^ 72) = Fin (of_int 9007190247541737 * 2 powi (- 53))"
    by (rule rnd_nearest [where e = "- 1"]) (simp_all add: binary64_def)
  then show ?thesis by (simp add: power_int_minus_divide)
qed

lemma rnd64_half: "rnd binary64 (1 / 2) = Fin (1 / 2)"
  by (rule rnd_exact [where m = 1 and k = "- 1"]) (simp_all add: binary64_def)

lemma rnd64_min2: "rnd binary64 (2 * 2 powi (- 1022)) = Fin (2 * 2 powi (- 1022))"
  by (rule rnd_exact [where m = 1 and k = "- 1021"]) (simp_all add: binary64_def)

lemma rnd64_one: "rnd binary64 1 = Fin 1"
  by (rule rnd_exact [where m = 1 and k = 0]) (simp_all add: binary64_def)

lemma rnd64_three_halves: "rnd binary64 (3 / 2) = Fin (3 / 2)"
  by (rule rnd_exact [where m = 3 and k = "- 1"]) (simp_all add: binary64_def)

subsection \<open>The rounding against known values of binary64\<close>

text \<open>
  The decimal \<open>0.1\<close> is \<open>0x1.999999999999ap-4\<close>, and \<open>0.1 + 0.2\<close> is \<open>0.30000000000000004\<close>; half
  of the smallest subnormal rounds to zero, three halves of it to twice it (ties to even);
  the midpoint between the largest value and \<open>2^1024\<close> overflows.
\<close>

lemma rnd64_one_tenth: "rnd binary64 (1 / 10) = Fin (3602879701896397 / 2 ^ 55)"
proof -
  have "rnd binary64 (1 / 10) = Fin (of_int 7205759403792794 * 2 powi (- 56))"
    by (rule rnd_nearest [where e = "- 4"]) (simp_all add: binary64_def)
  then show ?thesis by (simp add: power_int_minus_divide)
qed

lemma rnd64_one_fifth: "rnd binary64 (2 / 10) = Fin (3602879701896397 / 2 ^ 54)"
proof -
  have "rnd binary64 (2 / 10) = Fin (of_int 7205759403792794 * 2 powi (- 55))"
    by (rule rnd_nearest [where e = "- 3"]) (simp_all add: binary64_def)
  then show ?thesis by (simp add: power_int_minus_divide)
qed

lemma binary64_tenth_plus_fifth:
  "fadd binary64 (Fin (3602879701896397 / 2 ^ 55)) (Fin (3602879701896397 / 2 ^ 54)) =
     Fin (5404319552844596 / 2 ^ 54)"
proof -
  have "rnd binary64 (3602879701896397 / 2 ^ 55 + 3602879701896397 / 2 ^ 54) =
      Fin (of_int 5404319552844596 * 2 powi (- 54))"
    by (rule rnd_tie [where e = "- 2" and f = 5404319552844595]) (simp_all add: binary64_def)
  then show ?thesis by (simp add: power_int_minus_divide)
qed

lemma binary64_subnormal_ties:
  "rnd binary64 (2 powi (- 1075)) = Fin 0"
  "rnd binary64 (3 * 2 powi (- 1075)) = Fin (2 powi (- 1073))"
proof -
  have "rnd binary64 (2 powi (- 1075)) = Fin (of_int 0 * 2 powi (- 1074))"
    by (rule rnd_tie [where e = "- 1075" and f = 0]) (simp_all add: binary64_def)
  then show "rnd binary64 (2 powi (- 1075)) = Fin 0" by simp
  have "rnd binary64 (3 * 2 powi (- 1075)) = Fin (of_int 2 * 2 powi (- 1074))"
    by (rule rnd_tie [where e = "- 1074" and f = 1]) (simp_all add: binary64_def)
  then show "rnd binary64 (3 * 2 powi (- 1075)) = Fin (2 powi (- 1073))" by simp
qed

subsection \<open>Approximate equality\<close>

lemma flt_PInf_left [simp]: "flt PInf y = False"
  by (cases y) simp_all

lemma flt_NInf_right [simp]: "flt x NInf = False"
  by (cases x) simp_all

lemma flt_NaN_right [simp]: "flt x NaN = False"
  by (cases x) simp_all

lemma fequal_zero_iff: "fequal x (Fin 0) \<longleftrightarrow> x = Fin 0"
  by (auto simp add: fequal_def)

text \<open>
  Claim C1.  \<open>feq(lhs, rhs, eps)\<close> is \<open>|rhs| < eps\<close> when \<open>lhs\<close> is zero and \<open>|lhs| < eps\<close> when
  \<open>rhs\<close> is zero; otherwise, when neither the overflow guard nor the underflow guard fires, it
  is true exactly when the quotient \<open>lhs / rhs\<close> lies strictly between \<open>1 - eps\<close> and
  \<open>1 + eps\<close>.  In \<open>double\<close>, \<open>feq(0.0, 1e-10, 1e-6)\<close> is true and \<open>feq(1.0, 2.0, 1e-6)\<close> is
  false.
\<close>

theorem feq_cases:
  "(fequal lhs (Fin 0) \<longrightarrow> feq fmt lhs rhs eps = flt (fabs rhs) eps) \<and>
   (fequal rhs (Fin 0) \<longrightarrow> feq fmt lhs rhs eps = flt (fabs lhs) eps) \<and>
   (\<not> fequal lhs (Fin 0) \<and> \<not> fequal rhs (Fin 0) \<and>
    \<not> (flt (fabs rhs) (Fin 1) \<and> fgt (fabs lhs) (fmul fmt (fabs rhs) (numeric_max fmt))) \<and>
    \<not> (fgt (fabs rhs) (Fin 1) \<and> flt (fabs lhs) (fmul fmt (fabs rhs) (numeric_min fmt))) \<longrightarrow>
      feq fmt lhs rhs eps =
        (fgt (fdiv fmt lhs rhs) (fsub fmt (Fin 1) eps) \<and>
         flt (fdiv fmt lhs rhs) (fadd fmt (Fin 1) eps))) \<and>
   feq binary64 (Fin 0) (rnd binary64 (1 / 10 ^ 10)) (rnd binary64 (1 / 10 ^ 6)) \<and>
   \<not> feq binary64 (Fin 1) (Fin 2) (rnd binary64 (1 / 10 ^ 6))"
proof (intro conjI impI)
  assume "fequal lhs (Fin 0)"
  then show "feq fmt lhs rhs eps = flt (fabs rhs) eps" by (simp add: feq_def)
next
  assume r: "fequal rhs (Fin 0)"
  show "feq fmt lhs rhs eps = flt (fabs lhs) eps"
  proof (cases "fequal lhs (Fin 0)")
    case True
    with r have "lhs = rhs" by (simp add: fequal_zero_iff)
    with True show ?thesis by (simp add: feq_def)
  next
    case False
    with r show ?thesis by (simp add: feq_def)
  qed
next
  assume "\<not> fequal lhs (Fin 0) \<and> \<not> fequal rhs (Fin 0) \<and>
    \<not> (flt (fabs rhs) (Fin 1) \<and> fgt (fabs lhs) (fmul fmt (fabs rhs) (numeric_max fmt))) \<and>
    \<not> (fgt (fabs rhs) (Fin 1) \<and> flt (fabs lhs) (fmul fmt (fabs rhs) (numeric_min fmt)))"
  then show "feq fmt lhs rhs eps =
        (fgt (fdiv fmt lhs rhs) (fsub fmt (Fin 1) eps) \<and>
         flt (fdiv fmt lhs rhs) (fadd fmt (Fin 1) eps))"
    by (auto simp add: feq_def Let_def)
next
  show "feq binary64 (Fin 0) (rnd binary64 (1 / 10 ^ 10)) (rnd binary64 (1 / 10 ^ 6))"
    unfolding rnd64_1em10 rnd64_1em6 by (simp add: feq_def fequal_def)
next
  have "fmul binary64 (Fin 2) (numeric_min binary64) = Fin (2 * 2 powi (- 1022))"
    using rnd64_min2 by (simp add: numeric_min_def binary64_def)
  moreover have "fdiv binary64 (Fin 1) (Fin 2) = Fin (1 / 2)"
    using rnd64_half by simp
  moreover have "fsub binary64 (Fin 1) (Fin (4722366482869645 / 2 ^ 72)) = Fin (9007190247541737 / 2 ^ 53)"
    using rnd64_1_minus_1em6 by (simp add: fsub_def)
  ultimately show "\<not> feq binary64 (Fin 1) (Fin 2) (rnd binary64 (1 / 10 ^ 6))"
    unfolding rnd64_1em6 by (simp add: feq_def fequal_def fgt_def)
qed

text \<open>The three cases at \<open>(0, 3, 4)\<close>, \<open>(3, 0, 4)\<close> and \<open>(1, 1, 0.5)\<close>.\<close>

theorem feq_cases_witness:
  "(fequal (Fin 0) (Fin 0) \<and> feq binary64 (Fin 0) (Fin 3) (Fin 4)) \<and>
   feq binary64 (Fin 3) (Fin 0) (Fin 4) \<and>
   (\<not> fequal (Fin 1) (Fin 0) \<and> \<not> flt (fabs (Fin 1)) (Fin 1) \<and> \<not> fgt (fabs (Fin 1)) (Fin 1) \<and>
    feq binary64 (Fin 1) (Fin 1) (Fin (1 / 2)))"
proof -
  have "fdiv binary64 (Fin 1) (Fin 1) = Fin 1" using rnd64_one by simp
  moreover have "fsub binary64 (Fin 1) (Fin (1 / 2)) = Fin (1 / 2)"
    using rnd64_half by (simp add: fsub_def)
  moreover have "fadd binary64 (Fin 1) (Fin (1 / 2)) = Fin (3 / 2)"
    using rnd64_three_halves by simp
  ultimately show ?thesis
    using feq_cases [of "Fin 0" binary64 "Fin 3" "Fin 4"]
      feq_cases [of "Fin 3" binary64 "Fin 0" "Fin 4"]
      feq_cases [of "Fin 1" binary64 "Fin 1" "Fin (1 / 2)"]
    by (simp add: fequal_def fgt_def)
qed

text \<open>
  Claim C2.  For nonzero \<open>lhs\<close> and \<open>rhs\<close>, if \<open>|rhs| < 1\<close> and \<open>|lhs| > |rhs| * max\<close> (the
  quotient would overflow), or \<open>|rhs| > 1\<close> and \<open>|lhs| < |rhs| * min\<close> (it would underflow),
  then \<open>feq(lhs, rhs, eps)\<close> is false.
\<close>

theorem feq_ratio_out_of_range:
  "\<not> fequal lhs (Fin 0) \<and> \<not> fequal rhs (Fin 0) \<and>
   ((flt (fabs rhs) (Fin 1) \<and> fgt (fabs lhs) (fmul fmt (fabs rhs) (numeric_max fmt))) \<or>
    (fgt (fabs rhs) (Fin 1) \<and> flt (fabs lhs) (fmul fmt (fabs rhs) (numeric_min fmt))))
   \<longrightarrow> \<not> feq fmt lhs rhs eps"
  by (auto simp add: feq_def Let_def)

lemma rnd64_half_max:
  "rnd binary64 (1 / 2 * ((2 - 2 powi (1 - int 53)) * 2 powi 1023)) =
     Fin (1 / 2 * ((2 - 2 powi (1 - int 53)) * 2 powi 1023))"
  by (rule rnd_exact [where m = "2 ^ 53 - 1" and k = 970]) (simp_all add: binary64_def)

lemma rnd64_two_min:
  "rnd binary64 (2 * 2 powi (1 - 1023)) = Fin (2 * 2 powi (1 - 1023))"
  by (rule rnd_exact [where m = 1 and k = "- 1021"]) (simp_all add: binary64_def)

text \<open>
  The overflow guard at \<open>lhs = max\<close>, \<open>rhs = 0.5\<close> and the underflow guard at the smallest
  subnormal \<open>lhs = 2^-1074\<close>, \<open>rhs = 2\<close>, in \<open>double\<close>.
\<close>

theorem feq_ratio_out_of_range_witness:
  "(flt (fabs (Fin (1 / 2))) (Fin 1) \<and>
    fgt (fabs (numeric_max binary64)) (fmul binary64 (fabs (Fin (1 / 2))) (numeric_max binary64)) \<and>
    \<not> feq binary64 (numeric_max binary64) (Fin (1 / 2)) (Fin 1)) \<and>
   (fgt (fabs (Fin 2)) (Fin 1) \<and>
    flt (fabs (Fin (2 powi (- 1074)))) (fmul binary64 (fabs (Fin 2)) (numeric_min binary64)) \<and>
    \<not> feq binary64 (Fin (2 powi (- 1074))) (Fin 2) (Fin 1))"
proof -
  have a: "fmul binary64 (Fin (1 / 2)) (numeric_max binary64) =
      Fin (1 / 2 * ((2 - 2 powi (1 - int 53)) * 2 powi 1023))"
    using rnd64_half_max by (simp add: numeric_max_def binary64_def)
  have b: "fmul binary64 (Fin 2) (numeric_min binary64) = Fin (2 * 2 powi (1 - 1023))"
    using rnd64_two_min by (simp add: numeric_min_def binary64_def)
  have c: "fabs (Fin (1 / 2)) = Fin (1 / 2)" "fabs (Fin 2) = Fin 2"
    "fabs (numeric_max binary64) = numeric_max binary64"
    "fabs (Fin (2 powi (- 1074))) = Fin (2 powi (- 1074))"
    by (simp_all add: numeric_max_def binary64_def)
  have h1: "flt (Fin (1 / 2)) (Fin 1)" "fgt (numeric_max binary64) (fmul binary64 (Fin (1 / 2)) (numeric_max binary64))"
    unfolding a by (simp_all add: fgt_def numeric_max_def binary64_def)
  have h2: "fgt (Fin 2) (Fin 1)" "flt (Fin (2 powi (- 1074))) (fmul binary64 (Fin 2) (numeric_min binary64))"
    unfolding b by (simp_all add: fgt_def)
  have z: "\<not> fequal (numeric_max binary64) (Fin 0)" "\<not> fequal (Fin (1 / 2)) (Fin 0)"
    "\<not> fequal (Fin (2 powi (- 1074))) (Fin 0)" "\<not> fequal (Fin 2) (Fin 0)"
    by (simp_all add: fequal_def numeric_max_def binary64_def)
  from feq_ratio_out_of_range [of "numeric_max binary64" "Fin (1 / 2)" binary64 "Fin 1"]
    feq_ratio_out_of_range [of "Fin (2 powi (- 1074))" "Fin 2" binary64 "Fin 1"]
    h1 h2 z
  show ?thesis unfolding c by blast
qed

lemma fdiv_opposite_signs:
  assumes "(flt lhs (Fin 0) \<and> fgt rhs (Fin 0)) \<or> (fgt lhs (Fin 0) \<and> flt rhs (Fin 0))"
  shows "fdiv fmt lhs rhs = NaN \<or> fdiv fmt lhs rhs = NInf \<or> (\<exists>r. fdiv fmt lhs rhs = Fin r \<and> r \<le> 0)"
proof (cases lhs)
  case (Fin a)
  show ?thesis
  proof (cases rhs)
    case (Fin b)
    with \<open>lhs = Fin a\<close> assms have ab: "(a < 0 \<and> 0 < b) \<or> (0 < a \<and> b < 0)"
      by (simp add: fgt_def)
    then have "a / b < 0" by (auto simp add: divide_neg_pos divide_pos_neg)
    from rnd_neg_cases [OF this, of fmt] ab \<open>lhs = Fin a\<close> Fin show ?thesis by auto
  qed (use Fin in simp_all)
next
  case PInf
  with assms show ?thesis by (cases rhs) (auto simp add: fgt_def)
next
  case NInf
  with assms show ?thesis by (cases rhs) (auto simp add: fgt_def)
next
  case NaN
  then show ?thesis by simp
qed

lemma one_minus_eps_nonneg:
  assumes "fgt eps (Fin 0)" "fle eps (Fin 1)"
  shows "fsub fmt (Fin 1) eps = PInf \<or> (\<exists>r. fsub fmt (Fin 1) eps = Fin r \<and> 0 \<le> r)"
proof (cases eps)
  case (Fin e)
  with assms have "0 \<le> 1 - e" by simp
  from rnd_nonneg_cases [OF this, of fmt] Fin show ?thesis by (simp add: fsub_def)
qed (use assms in \<open>simp_all add: fgt_def\<close>)

text \<open>
  Claim C10.  For nonzero \<open>lhs\<close> and \<open>rhs\<close> of opposite signs and \<open>0 < eps \<le> 1\<close>,
  \<open>feq(lhs, rhs, eps)\<close> is false: the quotient is not positive and \<open>1 - eps\<close> is not negative.
\<close>

theorem feq_opposite_signs:
  "((flt lhs (Fin 0) \<and> fgt rhs (Fin 0)) \<or> (fgt lhs (Fin 0) \<and> flt rhs (Fin 0))) \<and>
   fgt eps (Fin 0) \<and> fle eps (Fin 1) \<longrightarrow> \<not> feq fmt lhs rhs eps"
proof (intro impI, elim conjE)
  assume s: "(flt lhs (Fin 0) \<and> fgt rhs (Fin 0)) \<or> (fgt lhs (Fin 0) \<and> flt rhs (Fin 0))"
    and e: "fgt eps (Fin 0)" "fle eps (Fin 1)"
  have nz: "\<not> fequal lhs (Fin 0)" "\<not> fequal rhs (Fin 0)"
    using s by (auto simp add: fequal_zero_iff fgt_def)
  have "\<not> fgt (fdiv fmt lhs rhs) (fsub fmt (Fin 1) eps)"
    using fdiv_opposite_signs [OF s, of fmt] one_minus_eps_nonneg [OF e, of fmt]
    by (auto simp add: fgt_def)
  then show "\<not> feq fmt lhs rhs eps" using nz by (simp add: feq_def Let_def)
qed

text \<open>Both orders of the signs, in \<open>double\<close> and in \<open>float\<close>.\<close>

theorem feq_opposite_signs_witness:
  "(fgt (Fin 1) (Fin 0) \<and> flt (Fin (- 1)) (Fin 0) \<and> fgt (Fin (1 / 2)) (Fin 0) \<and>
    fle (Fin (1 / 2)) (Fin 1) \<and> \<not> feq binary64 (Fin 1) (Fin (- 1)) (Fin (1 / 2))) \<and>
   (flt (Fin (- 3)) (Fin 0) \<and> fgt (Fin 3) (Fin 0) \<and> \<not> feq binary32 (Fin (- 3)) (Fin 3) (Fin 1))"
  using feq_opposite_signs [of "Fin 1" "Fin (- 1)" "Fin (1 / 2)" binary64]
    feq_opposite_signs [of "Fin (- 3)" "Fin 3" "Fin 1" binary32]
  by (simp add: fgt_def)

subsection \<open>Rounding below a value of the format\<close>

lemma float_pos_multiple:
  assumes "0 < n" "rnd fmt n = Fin n"
  shows "n = of_int (rne (n / quantum fmt n)) * quantum fmt n" and "n < 2 powi (emax fmt + 1)"
proof -
  from assms(2) show "n = of_int (rne (n / quantum fmt n)) * quantum fmt n"
    by (simp add: rnd_pos_unfold [OF assms(1)] split: if_splits)
  from assms(2) have "\<not> 2 powi (emax fmt + 1) \<le> of_int (rne (n / quantum fmt n)) * quantum fmt n"
    by (simp add: rnd_pos_unfold [OF assms(1)] split: if_splits)
  with \<open>n = of_int (rne (n / quantum fmt n)) * quantum fmt n\<close>
  show "n < 2 powi (emax fmt + 1)" by (simp add: not_le)
qed

lemma quantum_divides:
  assumes "0 < s" "s \<le> n"
  shows "\<exists>j::nat. quantum fmt n = quantum fmt s * 2 ^ j"
proof -
  have n: "0 < n" using assms by simp
  define ks where "ks = max (ilog2 s) (1 - emax fmt) - (int (prec fmt) - 1)"
  define kn where "kn = max (ilog2 n) (1 - emax fmt) - (int (prec fmt) - 1)"
  have "ilog2 s \<le> ilog2 n" using assms by (rule ilog2_mono)
  then have le: "ks \<le> kn" by (simp add: ks_def kn_def)
  have "quantum fmt n = 2 powi kn" "quantum fmt s = 2 powi ks"
    using assms(1) n by (simp_all add: quantum_def ks_def kn_def)
  moreover have "(2::rat) powi kn = 2 powi ks * 2 ^ nat (kn - ks)"
  proof -
    have "(2::rat) powi kn = 2 powi (ks + int (nat (kn - ks)))" using le by simp
    also have "\<dots> = 2 powi ks * 2 powi int (nat (kn - ks))" by (rule power_int_add) simp
    also have "(2::rat) powi int (nat (kn - ks)) = 2 ^ nat (kn - ks)" by (rule power_int_of_nat)
    finally show ?thesis .
  qed
  ultimately show ?thesis by auto
qed

lemma rnd_le_float:
  assumes s: "0 < s" "s \<le> n" and n: "rnd fmt n = Fin n"
  shows "\<exists>r. rnd fmt s = Fin r \<and> 0 \<le> r \<and> r \<le> n"
proof -
  have npos: "0 < n" using s by simp
  note f = float_pos_multiple [OF npos n]
  from quantum_divides [OF s, of fmt] obtain j :: nat where
    j: "quantum fmt n = quantum fmt s * 2 ^ j" by blast
  define us where "us = quantum fmt s"
  have us: "0 < us" unfolding us_def by (rule quantum_pos)
  define mn where "mn = rne (n / quantum fmt n) * 2 ^ j"
  have "n = of_int (rne (n / quantum fmt n)) * (us * 2 ^ j)"
    using f(1) unfolding us_def j .
  then have nm: "n = of_int mn * us"
    unfolding mn_def by (simp add: mult_ac)
  have "s / us \<le> n / us" using s(2) us by (simp add: divide_right_mono)
  also have "n / us = of_int mn" using nm us by simp
  finally have "rne (s / us) \<le> mn" by (rule rne_le_int)
  then have "(of_int (rne (s / us)) :: rat) \<le> of_int mn" by (simp only: of_int_le_iff)
  then have le: "of_int (rne (s / us)) * us \<le> n"
    unfolding nm using us by (simp add: mult_right_mono)
  have "0 \<le> s / us" using s(1) us by simp
  then have "0 \<le> rne (s / us)" by (rule rne_nonneg)
  then have ge: "(0::rat) \<le> of_int (rne (s / us)) * us" using us by simp
  have "of_int (rne (s / us)) * us < 2 powi (emax fmt + 1)"
    using le f(2) by (rule le_less_trans)
  then have "rnd fmt s = Fin (of_int (rne (s / us)) * us)"
    by (simp add: rnd_pos_unfold [OF s(1)] us_def not_le)
  with le ge show ?thesis by blast
qed

subsection \<open>The remainder of a truncating division\<close>



subsection \<open>Non-negative remainder\<close>

lemma sint_word_of_int_small:
  assumes "- (2 ^ (LENGTH('a) - 1)) \<le> k" "k < 2 ^ (LENGTH('a) - 1)"
  shows "sint (word_of_int k :: 'a::len word) = k"
  using assms by (simp only: sint_sbintrunc' signed_take_bit_int_eq_self)







lemma rnd64_two: "rnd binary64 2 = Fin 2"
  by (rule rnd_exact [where m = 1 and k = 1]) (simp_all add: binary64_def)

lemma rnd64_three: "rnd binary64 3 = Fin 3"
  by (rule rnd_exact [where m = 3 and k = 0]) (simp_all add: binary64_def)







subsection \<open>Smooth step\<close>

lemma fle_flt_trans:
  assumes "flt a b" "fge x b"
  shows "\<not> fle x a"
  using assms by (cases a; cases b; cases x) (simp_all add: fge_def)

text \<open>
  Claim C7, as amended.  For \<open>a < b\<close>, \<open>smoothstep(a, b, x)\<close> is 0 for \<open>x \<le> a\<close>, 1 for
  \<open>x \<ge> b\<close>, and otherwise \<open>y * y * (3 - y - y)\<close> with \<open>y = (x - a) / (b - a)\<close>, each operation
  rounded in \<open>T\<close>; \<open>smoothstep(0, 1, 0.5) == 0.5\<close>.
\<close>

theorem smoothstep_cases:
  "(flt a b \<and> fle x a \<longrightarrow> smoothstep fmt a b x = Some (Fin 0)) \<and>
   (flt a b \<and> fge x b \<longrightarrow> smoothstep fmt a b x = Some (Fin 1)) \<and>
   (flt a b \<and> \<not> fle x a \<and> \<not> fge x b \<longrightarrow>
      smoothstep fmt a b x =
        Some (let y = fdiv fmt (fsub fmt x a) (fsub fmt b a)
              in fmul fmt (fmul fmt y y) (fsub fmt (fsub fmt (Fin 3) y) y))) \<and>
   smoothstep binary64 (Fin 0) (Fin 1) (Fin (1 / 2)) = Some (Fin (1 / 2))"
proof (intro conjI impI)
  assume "flt a b \<and> fle x a"
  then show "smoothstep fmt a b x = Some (Fin 0)" by (simp add: smoothstep_def)
next
  assume h: "flt a b \<and> fge x b"
  then have "\<not> fle x a" using fle_flt_trans [of a b x] by simp
  with h show "smoothstep fmt a b x = Some (Fin 1)" by (simp add: smoothstep_def)
next
  assume "flt a b \<and> \<not> fle x a \<and> \<not> fge x b"
  then show "smoothstep fmt a b x =
        Some (let y = fdiv fmt (fsub fmt x a) (fsub fmt b a)
              in fmul fmt (fmul fmt y y) (fsub fmt (fsub fmt (Fin 3) y) y))"
    by (simp add: smoothstep_def Let_def)
next
  have e: "rnd binary64 (1 / 4) = Fin (1 / 4)" "rnd binary64 (5 / 2) = Fin (5 / 2)"
    by (rule rnd_exact [where m = 1 and k = "- 2"], simp_all add: binary64_def)
      (rule rnd_exact [where m = 5 and k = "- 1"], simp_all add: binary64_def)
  have y: "fdiv binary64 (fsub binary64 (Fin (1 / 2)) (Fin 0)) (fsub binary64 (Fin 1) (Fin 0)) = Fin (1 / 2)"
    using rnd64_half rnd64_one by (simp add: fsub_def)
  have "fmul binary64 (Fin (1 / 2)) (Fin (1 / 2)) = Fin (1 / 4)" using e(1) by simp
  moreover have "fsub binary64 (fsub binary64 (Fin 3) (Fin (1 / 2))) (Fin (1 / 2)) = Fin 2"
    using e(2) rnd64_two by (simp add: fsub_def)
  moreover have "fmul binary64 (Fin (1 / 4)) (Fin 2) = Fin (1 / 2)" using rnd64_half by simp
  ultimately show "smoothstep binary64 (Fin 0) (Fin 1) (Fin (1 / 2)) = Some (Fin (1 / 2))"
    by (simp add: smoothstep_def fge_def y Let_def)
qed

text \<open>The three cases at \<open>x = -1\<close>, \<open>x = 2\<close> and \<open>x = 0.5\<close> on \<open>[0, 1]\<close>.\<close>

theorem smoothstep_cases_witness:
  "(flt (Fin 0) (Fin 1) \<and> fle (Fin (- 1)) (Fin 0) \<and> smoothstep binary64 (Fin 0) (Fin 1) (Fin (- 1)) = Some (Fin 0)) \<and>
   (fge (Fin 2) (Fin 1) \<and> smoothstep binary64 (Fin 0) (Fin 1) (Fin 2) = Some (Fin 1)) \<and>
   (\<not> fle (Fin (1 / 2)) (Fin 0) \<and> \<not> fge (Fin (1 / 2)) (Fin 1) \<and>
    smoothstep binary64 (Fin 0) (Fin 1) (Fin (1 / 2)) = Some (Fin (1 / 2)))"
proof -
  have h: "flt (Fin 0) (Fin 1)" "fle (Fin (- 1)) (Fin 0)" "fge (Fin 2) (Fin 1)"
    "\<not> fle (Fin (1 / 2)) (Fin 0)" "\<not> fge (Fin (1 / 2)) (Fin 1)"
    by (simp_all add: fge_def)
  from smoothstep_cases [of "Fin 0" "Fin 1" "Fin (- 1)" binary64] h
  have "smoothstep binary64 (Fin 0) (Fin 1) (Fin (- 1)) = Some (Fin 0)" by blast
  moreover from smoothstep_cases [of "Fin 0" "Fin 1" "Fin 2" binary64] h
  have "smoothstep binary64 (Fin 0) (Fin 1) (Fin 2) = Some (Fin 1)" by blast
  moreover from smoothstep_cases [of "Fin 0" "Fin 1" "Fin (1 / 2)" binary64]
  have "smoothstep binary64 (Fin 0) (Fin 1) (Fin (1 / 2)) = Some (Fin (1 / 2))" by blast
  ultimately show ?thesis using h by blast
qed

text \<open>
  The value that the code computes, \<open>y * y * (3 - y - y)\<close>, is not always the value of the
  expression \<open>y * y * (3 - 2 * y)\<close>: the two subtractions round twice.  At \<open>x = 2^-52\<close> on
  \<open>[0, 1]\<close>, \<open>3 - y\<close> is halfway between \<open>3 - 2^-51\<close> and 3 and rounds to 3, whereas
  \<open>3 - 2 * y\<close> is exact.
\<close>

lemma rnd64_three_tie: "rnd binary64 (3 - 2 powi (- 52)) = Fin 3"
proof -
  have "rnd binary64 (3 - 2 powi (- 52)) = Fin (of_int (3 * 2 ^ 51) * 2 powi (- 51))"
    by (rule rnd_tie [where e = 1 and f = "3 * 2 ^ 51 - 1"]) (simp_all add: binary64_def)
  then show ?thesis by simp
qed

lemma rnd64_pow2_exact:
  assumes "- 1074 \<le> k" "k \<le> 1023"
  shows "rnd binary64 (2 powi k) = Fin (2 powi k)"
proof (rule rnd_exact [where m = 1 and k = k])
  have "k < emax binary64 + 1" using assms by (simp add: binary64_def)
  then have "(2::rat) powi k < 2 powi (emax binary64 + 1)" by (simp only: two_powi_less_iff)
  then show "\<bar>(2::rat) powi k\<bar> < 2 powi (emax binary64 + 1)" by simp
qed (use assms in \<open>simp_all add: binary64_def\<close>)

text \<open>
  Claim C7 as stated fails in \<open>double\<close> at \<open>a = 0\<close>, \<open>b = 1\<close>, \<open>x = 2^-52\<close>: the code returns
  \<open>3 * 2^-104\<close>, the expression of the claim is \<open>3 * 2^-104 - 2^-155\<close>.
\<close>

theorem smoothstep_formula_counterexample:
  "is_float binary64 (Fin (2 powi (- 52))) \<and> flt (Fin 0) (Fin 1) \<and>
   \<not> fle (Fin (2 powi (- 52))) (Fin 0) \<and> \<not> fge (Fin (2 powi (- 52))) (Fin 1) \<and>
   smoothstep binary64 (Fin 0) (Fin 1) (Fin (2 powi (- 52))) = Some (Fin (3 * 2 powi (- 104))) \<and>
   (let y = fdiv binary64 (fsub binary64 (Fin (2 powi (- 52))) (Fin 0)) (fsub binary64 (Fin 1) (Fin 0))
    in fmul binary64 (fmul binary64 y y) (fsub binary64 (Fin 3) (fmul binary64 (Fin 2) y)))
     = Fin (3 * 2 powi (- 104) - 2 powi (- 155))"
proof -
  have x: "rnd binary64 (2 powi (- 52)) = Fin (2 powi (- 52))"
    by (rule rnd64_pow2_exact) simp_all
  have y: "fdiv binary64 (fsub binary64 (Fin (2 powi (- 52))) (Fin 0)) (fsub binary64 (Fin 1) (Fin 0))
      = Fin (2 powi (- 52))"
    using x rnd64_one by (simp add: fsub_def)
  have "rnd binary64 (2 powi (- 104)) = Fin (2 powi (- 104))"
    by (rule rnd64_pow2_exact) simp_all
  then have yy: "fmul binary64 (Fin (2 powi (- 52))) (Fin (2 powi (- 52))) = Fin (2 powi (- 104))"
    by (simp add: power_int_minus_divide)
  have s: "fsub binary64 (Fin 3) (Fin (2 powi (- 52))) = Fin 3"
    using rnd64_three_tie by (simp add: fsub_def)
  have "rnd binary64 (3 * 2 powi (- 104)) = Fin (3 * 2 powi (- 104))"
    by (rule rnd_exact [where m = 3 and k = "- 104"]) (simp_all add: binary64_def)
  then have p: "fmul binary64 (Fin (2 powi (- 104))) (Fin 3) = Fin (3 * 2 powi (- 104))"
    by (simp add: mult.commute)
  have code: "smoothstep binary64 (Fin 0) (Fin 1) (Fin (2 powi (- 52))) = Some (Fin (3 * 2 powi (- 104)))"
    unfolding smoothstep_def y Let_def yy s p by (simp add: fge_def)
  have "rnd binary64 (2 powi (- 51)) = Fin (2 powi (- 51))"
    by (rule rnd64_pow2_exact) simp_all
  then have d: "fmul binary64 (Fin 2) (Fin (2 powi (- 52))) = Fin (2 powi (- 51))"
    by (simp add: power_int_minus_divide)
  have "rnd binary64 (3 - 2 powi (- 51)) = Fin (3 - 2 powi (- 51))"
    by (rule rnd_exact [where m = "3 * 2 ^ 51 - 1" and k = "- 51"]) (simp_all add: binary64_def)
  then have t: "fsub binary64 (Fin 3) (Fin (2 powi (- 51))) = Fin (3 - 2 powi (- 51))"
    by (simp add: fsub_def)
  have "rnd binary64 (3 * 2 powi (- 104) - 2 powi (- 155)) = Fin (3 * 2 powi (- 104) - 2 powi (- 155))"
    by (rule rnd_exact [where m = "3 * 2 ^ 51 - 1" and k = "- 155"]) (simp_all add: binary64_def)
  then have q: "fmul binary64 (Fin (2 powi (- 104))) (Fin (3 - 2 powi (- 51)))
      = Fin (3 * 2 powi (- 104) - 2 powi (- 155))"
    by (simp add: power_int_minus_divide algebra_simps)
  have claim: "(let y = fdiv binary64 (fsub binary64 (Fin (2 powi (- 52))) (Fin 0)) (fsub binary64 (Fin 1) (Fin 0))
    in fmul binary64 (fmul binary64 y y) (fsub binary64 (Fin 3) (fmul binary64 (Fin 2) y)))
     = Fin (3 * 2 powi (- 104) - 2 powi (- 155))"
    unfolding y Let_def yy d t q ..
  have "is_float binary64 (Fin (2 powi (- 52)))" using x by (simp add: is_float_def)
  moreover have "flt (Fin 0) (Fin 1)" "\<not> fle (Fin (2 powi (- 52))) (Fin 0)"
    "\<not> fge (Fin (2 powi (- 52))) (Fin 1)" by (simp_all add: fge_def)
  ultimately show ?thesis using code claim by blast
qed

subsection \<open>Truncation and rounding to an integer\<close>

lemma trunc_of_int [simp]: "trunc (of_int k) = k"
  by (simp add: trunc_def)

lemma trunc_numeral [simp]: "trunc (numeral n) = numeral n" "trunc (- numeral n) = - numeral n"
  using trunc_of_int [of "numeral n"] trunc_of_int [of "- numeral n"] by simp_all

lemma trunc_toward_zero:
  "\<bar>of_int (trunc q)\<bar> \<le> \<bar>q\<bar> \<and> \<bar>q\<bar> < \<bar>of_int (trunc q)\<bar> + 1 \<and> 0 \<le> of_int (trunc q) * q"
proof (cases "0 \<le> q")
  case True
  then have t: "trunc q = \<lfloor>q\<rfloor>" by (simp add: trunc_def)
  have "of_int \<lfloor>q\<rfloor> \<le> q" "q < of_int \<lfloor>q\<rfloor> + 1" by linarith+
  moreover have "(0::rat) \<le> of_int \<lfloor>q\<rfloor>" using True by simp
  ultimately show ?thesis using True unfolding t by simp
next
  case False
  then have t: "trunc q = \<lceil>q\<rceil>" by (simp add: trunc_def)
  have c: "q \<le> of_int \<lceil>q\<rceil>" "of_int \<lceil>q\<rceil> < q + 1" by linarith+
  have "\<lceil>q\<rceil> \<le> 0" using False by (simp add: ceiling_le_iff)
  then have n: "of_int \<lceil>q\<rceil> \<le> (0::rat)" by simp
  then have "0 \<le> of_int \<lceil>q\<rceil> * q" using False by (simp add: mult_nonpos_nonpos)
  with c n False show ?thesis unfolding t by simp
qed

text \<open>The two paths of \<open>truncate\<close> agree where the truncated value fits 32 bits and \<open>Int\<close>.\<close>

lemma truncate_paths_agree_in_range:
  assumes "int_range Signed 32 (trunc q)" "int_range sg LENGTH('a) (trunc q)"
  shows "truncate True sg (Fin q) = (truncate False sg (Fin q) :: 'a::len word option)"
proof -
  from assms(1) have r: "- (2 ^ 31) \<le> trunc q" "trunc q < 2 ^ 31" by (simp_all add: int_range_def)
  then have "sint (word_of_int (trunc q) :: 32 word) = trunc q"
    by (intro sint_word_of_int_small) simp_all
  then have "(scast (word_of_int (trunc q) :: 32 word) :: 'a word) = word_of_int (trunc q)"
    by (simp add: signed_of_int) 
  with r assms(2) show ?thesis
    by (simp add: truncate_def mm_cvtt_si32_def static_cast_int_def)
qed

text \<open>
  Claim C6 does not hold of the code: at the \<open>float\<close> \<open>2^31\<close> and \<open>Int = int64\<close> the portable
  path returns \<open>2147483648\<close>, and the SSE path returns the integer indefinite value of the
  32-bit conversion, sign-extended: \<open>-2147483648\<close>.
\<close>

theorem truncate_sse_divergence:
  "is_float binary32 (Fin (2 ^ 31)) \<and>
   (truncate False Signed (Fin (2 ^ 31)) :: 64 word option) = Some 2147483648 \<and>
   (truncate True Signed (Fin (2 ^ 31)) :: 64 word option) = Some (- 2147483648)"
proof -
  have "rnd binary32 (2 ^ 31) = Fin (2 ^ 31)"
    by (rule rnd_exact [where m = 1 and k = 31]) (simp_all add: binary32_def)
  then show ?thesis
    by (simp add: is_float_def truncate_def mm_cvtt_si32_def static_cast_int_def int_range_def)
qed

lemma trunc_seven_halves: "trunc (7 / 2) = 3" "trunc (- 7 / 2) = - 3"
proof -
  have "\<lfloor>7 / 2 :: rat\<rfloor> = 3" by (rule floor_unique) simp_all
  then show "trunc (7 / 2) = 3" by (simp add: trunc_def)
  have "\<lceil>- 7 / 2 :: rat\<rceil> = - 3" by (rule ceiling_unique) simp_all
  then show "trunc (- 7 / 2) = - 3" by (simp add: trunc_def)
qed

subsection \<open>Rounding in the normal range\<close>

lemma ilog2_normal:
  assumes "2 powi k \<le> s"
  shows "k \<le> ilog2 s"
proof -
  have "(0::rat) < 2 powi k" by simp
  then have s: "0 < s" using assms by (rule less_le_trans)
  have "(2::rat) powi k < 2 powi (ilog2 s + 1)"
    using assms ilog2_bounds(2) [OF s] by (rule le_less_trans)
  then show ?thesis by (simp add: two_powi_less_iff)
qed

lemma quantum_normal:
  assumes "2 powi (1 - emax fmt) \<le> s"
  shows "quantum fmt s = 2 powi (ilog2 s - (int (prec fmt) - 1))"
proof -
  have "(0::rat) < 2 powi (1 - emax fmt)" by simp
  then have s: "0 < s" using assms by (rule less_le_trans)
  from ilog2_normal [OF assms] s show ?thesis by (simp add: quantum_def max_def)
qed

lemma rnd_rel_error:
  assumes p: "0 < prec fmt"
    and lo: "2 powi (1 - emax fmt) \<le> s" and hi: "s \<le> 2 powi (emax fmt)"
  shows "\<exists>r. rnd fmt s = Fin r \<and> \<bar>r - s\<bar> \<le> s * 2 powi (- int (prec fmt))"
proof -
  have "(0::rat) < 2 powi (1 - emax fmt)" by simp
  then have s: "0 < s" using lo by (rule less_le_trans)
  define e where "e = ilog2 s"
  define u :: rat where "u = 2 powi (e - (int (prec fmt) - 1))"
  have u: "quantum fmt s = u" unfolding u_def e_def using lo by (rule quantum_normal)
  have upos: "0 < u" by (simp add: u_def)
  have eb: "2 powi e \<le> s" "s < 2 powi (e + 1)" unfolding e_def using s by (rule ilog2_bounds)+
  have "(2::rat) powi e \<le> 2 powi (emax fmt)" using eb(1) hi by (rule order_trans)
  then have ee: "e \<le> emax fmt" by (simp only: two_powi_le_iff)
  define M where "M = rne (s / u)"
  define r where "r = of_int M * u"
  have near: "of_int M - 1 / 2 \<le> s / u" "s / u \<le> of_int M + 1 / 2"
    unfolding M_def using rne_near [of "s / u"] by simp_all
  have "\<bar>of_int M - s / u\<bar> \<le> 1 / 2" using near by linarith
  then have "\<bar>of_int M - s / u\<bar> * u \<le> 1 / 2 * u"
    using upos by (intro mult_right_mono) simp_all
  moreover have "\<bar>of_int M - s / u\<bar> * u = \<bar>r - s\<bar>"
  proof -
    have "r - s = (of_int M - s / u) * u"
      using upos by (simp add: r_def algebra_simps)
    then show ?thesis using upos by (simp add: abs_mult)
  qed
  ultimately have d: "\<bar>r - s\<bar> \<le> u / 2" by simp
  have u2: "u / 2 = 2 powi e * 2 powi (- int (prec fmt))"
  proof -
    have "e - (int (prec fmt) - 1) = e + - int (prec fmt) + 1" by simp
    then have "u = 2 powi (e + - int (prec fmt) + 1)" by (simp only: u_def)
    also have "\<dots> = 2 powi (e + - int (prec fmt)) * 2" by (simp add: power_int_add)
    also have "2 powi (e + - int (prec fmt)) = (2::rat) powi e * 2 powi (- int (prec fmt))"
      by (rule power_int_add) simp
    finally show ?thesis by simp
  qed
  have "u / 2 \<le> s * 2 powi (- int (prec fmt))"
    unfolding u2 using eb(1) by (intro mult_right_mono) simp_all
  with d have rel: "\<bar>r - s\<bar> \<le> s * 2 powi (- int (prec fmt))" by simp
  define j where "j = nat (emax fmt - e + (int (prec fmt) - 1))"
  have j: "int j = emax fmt - e + (int (prec fmt) - 1)" using ee p by (simp add: j_def)
  have "s / u \<le> 2 powi (emax fmt) / u" using hi upos by (simp add: divide_right_mono)
  also have "2 powi (emax fmt) / u = 2 powi (emax fmt - (e - (int (prec fmt) - 1)))"
    unfolding u_def by (rule power_int_diff [symmetric]) simp
  also have "emax fmt - (e - (int (prec fmt) - 1)) = int j" using j by simp
  also have "(2::rat) powi int j = of_int (2 ^ j)" by simp
  finally have "M \<le> 2 ^ j" unfolding M_def by (rule rne_le_int)
  then have "(of_int M :: rat) \<le> of_int (2 ^ j)" by (simp only: of_int_le_iff)
  then have "r \<le> of_int (2 ^ j) * u" unfolding r_def using upos by (intro mult_right_mono) simp_all
  also have "of_int (2 ^ j) * u = 2 powi int j * 2 powi (e - (int (prec fmt) - 1))"
    by (simp add: u_def)
  also have "\<dots> = 2 powi (int j + (e - (int (prec fmt) - 1)))"
    by (rule power_int_add [symmetric]) simp
  also have "int j + (e - (int (prec fmt) - 1)) = emax fmt" using j by simp
  also have "(2::rat) powi (emax fmt) < 2 powi (emax fmt + 1)" by (simp add: two_powi_less_iff)
  finally have "r < 2 powi (emax fmt + 1)" .
  then have "rnd fmt s = Fin r"
    by (simp add: rnd_pos_unfold [OF s] u r_def M_def not_le)
  with rel show ?thesis by blast
qed

lemma rnd_ge_float:
  assumes p: "0 < prec fmt"
    and n: "0 < n" "rnd fmt n = Fin n" and s: "n \<le> s" "2 powi (1 - emax fmt) \<le> s"
  shows "rnd fmt s = PInf \<or> (\<exists>r. rnd fmt s = Fin r \<and> n \<le> r)"
proof -
  have spos: "0 < s" using n(1) s(1) by simp
  define e where "e = ilog2 s"
  define u :: rat where "u = 2 powi (e - (int (prec fmt) - 1))"
  have u: "quantum fmt s = u" unfolding u_def e_def using s(2) by (rule quantum_normal)
  have upos: "0 < u" by (simp add: u_def)
  have emin: "1 - emax fmt \<le> e" unfolding e_def using s(2) by (rule ilog2_normal)
  have eb: "2 powi e \<le> s" unfolding e_def using spos by (rule ilog2_bounds)
  have le: "ilog2 n \<le> e" unfolding e_def using n(1) s(1) by (rule ilog2_mono)
  have "n \<le> of_int (rne (s / u)) * u"
  proof (cases "ilog2 n = e")
    case True
    then have "quantum fmt n = u" using emin n(1) by (simp add: quantum_def u_def max_def)
    with float_pos_multiple(1) [OF n] have nm: "n = of_int (rne (n / u)) * u" by simp
    have "n / u \<le> s / u" using s(1) upos by (simp add: divide_right_mono)
    then have "rne (n / u) \<le> rne (s / u)" by (rule rne_mono)
    then have "(of_int (rne (n / u)) :: rat) \<le> of_int (rne (s / u))" by (simp only: of_int_le_iff)
    then have "of_int (rne (n / u)) * u \<le> of_int (rne (s / u)) * u"
      using upos by (intro mult_right_mono) simp_all
    with nm show ?thesis by simp
  next
    case False
    with le have "ilog2 n + 1 \<le> e" by simp
    then have "(2::rat) powi (ilog2 n + 1) \<le> 2 powi e" by (simp only: two_powi_le_iff)
    with ilog2_bounds(2) [OF n(1)] have nlt: "n < 2 powi e" by simp
    define j where "j = prec fmt - 1"
    have j: "int j = int (prec fmt) - 1" using p by (simp add: j_def)
    have "2 powi e / u = 2 powi (e - (e - (int (prec fmt) - 1)))"
      unfolding u_def by (rule power_int_diff [symmetric]) simp
    also have "e - (e - (int (prec fmt) - 1)) = int j" using j by simp
    also have "(2::rat) powi int j = of_int (2 ^ j)" by simp
    finally have pe: "2 powi e / u = of_int (2 ^ j)" .
    have "of_int (2 ^ j) \<le> s / u" unfolding pe [symmetric] using eb upos by (simp add: divide_right_mono)
    then have "2 ^ j \<le> rne (s / u)" by (rule rne_ge_int)
    then have "(of_int (2 ^ j) :: rat) \<le> of_int (rne (s / u))" by (simp only: of_int_le_iff)
    then have "of_int (2 ^ j) * u \<le> of_int (rne (s / u)) * u"
      using upos by (intro mult_right_mono) simp_all
    moreover have "of_int (2 ^ j) * u = 2 powi e" unfolding pe [symmetric] using upos by simp
    ultimately show ?thesis using nlt by simp
  qed
  then show ?thesis by (simp add: rnd_pos_unfold [OF spos] u)
qed

subsection \<open>Two multiplications in a row\<close>

lemma fmul_rel:
  assumes p: "0 < prec fmt" and a: "0 < a" "0 < c"
    and n: "2 powi (1 - emax fmt) \<le> a * c" "a * c \<le> 2 powi (emax fmt)"
  shows "\<exists>r. fmul fmt (Fin a) (Fin c) = Fin r \<and>
    a * c * (1 - 2 powi (- int (prec fmt))) \<le> r \<and> r \<le> a * c * (1 + 2 powi (- int (prec fmt)))"
proof -
  from rnd_rel_error [OF p n] obtain r where
    r: "rnd fmt (a * c) = Fin r" "\<bar>r - a * c\<bar> \<le> a * c * 2 powi (- int (prec fmt))" by blast
  from r(2) have "a * c - a * c * 2 powi (- int (prec fmt)) \<le> r"
    "r \<le> a * c + a * c * 2 powi (- int (prec fmt))" by linarith+
  then have "a * c * (1 - 2 powi (- int (prec fmt))) \<le> r"
    "r \<le> a * c * (1 + 2 powi (- int (prec fmt)))" by (simp_all add: algebra_simps)
  with r(1) show ?thesis by simp
qed

lemma eps_half:
  assumes "0 < prec fmt"
  shows "(2::rat) powi (- int (prec fmt)) \<le> 1 / 2" and "0 < (2::rat) powi (- int (prec fmt))"
proof -
  have "- int (prec fmt) \<le> - 1" using assms by simp
  then have "(2::rat) powi (- int (prec fmt)) \<le> 2 powi (- 1)" by (simp only: two_powi_le_iff)
  then show "(2::rat) powi (- int (prec fmt)) \<le> 1 / 2" by simp
  show "0 < (2::rat) powi (- int (prec fmt))" by simp
qed

lemma round_trip_bounds:
  fixes c1 c2 q A B :: rat and fmt :: format
  defines "\<epsilon> \<equiv> 2 powi (- int (prec fmt))"
  assumes p: "0 < prec fmt" and c: "0 < c1" "0 < c2" and q: "0 < A" "A \<le> q" "q \<le> B"
    and nhi: "2 powi (1 - emax fmt) \<le> A * c1" "B * c1 \<le> 2 powi (emax fmt)"
    and n2: "2 powi (1 - emax fmt) \<le> A * c1 * (1 - \<epsilon>) * c2" "B * c1 * (1 + \<epsilon>) * c2 \<le> 2 powi (emax fmt)"
  shows "\<exists>r. fmul fmt (fmul fmt (Fin q) (Fin c1)) (Fin c2) = Fin r \<and>
    c1 * c2 * (1 - \<epsilon>)\<^sup>2 * q \<le> r \<and> r \<le> c1 * c2 * (1 + \<epsilon>)\<^sup>2 * q"
proof -
  have e: "\<epsilon> \<le> 1 / 2" "0 < \<epsilon>" unfolding \<epsilon>_def using p by (rule eps_half)+
  have qpos: "0 < q" using q by simp
  have "A * c1 \<le> q * c1" using q(2) c(1) by (simp add: mult_right_mono)
  with nhi(1) have a1: "2 powi (1 - emax fmt) \<le> q * c1" by simp
  have "q * c1 \<le> B * c1" using q(3) c(1) by (simp add: mult_right_mono)
  with nhi(2) have a2: "q * c1 \<le> 2 powi (emax fmt)" by simp
  from fmul_rel [OF p qpos c(1) a1 a2] obtain r1 where
    r1: "fmul fmt (Fin q) (Fin c1) = Fin r1" "q * c1 * (1 - \<epsilon>) \<le> r1" "r1 \<le> q * c1 * (1 + \<epsilon>)"
    unfolding \<epsilon>_def by blast
  have "0 < q * c1 * (1 - \<epsilon>)" using qpos c(1) e by simp
  with r1(2) have r1pos: "0 < r1" by simp
  have "A * c1 * (1 - \<epsilon>) \<le> q * c1 * (1 - \<epsilon>)" using q(2) c(1) e by (simp add: mult_right_mono)
  with r1(2) have "A * c1 * (1 - \<epsilon>) \<le> r1" by simp
  then have "A * c1 * (1 - \<epsilon>) * c2 \<le> r1 * c2" using c(2) by (simp add: mult_right_mono)
  with n2(1) have b1: "2 powi (1 - emax fmt) \<le> r1 * c2" by simp
  have "q * c1 * (1 + \<epsilon>) \<le> B * c1 * (1 + \<epsilon>)" using q(3) c(1) e by (simp add: mult_right_mono)
  with r1(3) have "r1 \<le> B * c1 * (1 + \<epsilon>)" by simp
  then have "r1 * c2 \<le> B * c1 * (1 + \<epsilon>) * c2" using c(2) by (simp add: mult_right_mono)
  with n2(2) have b2: "r1 * c2 \<le> 2 powi (emax fmt)" by simp
  from fmul_rel [OF p r1pos c(2) b1 b2] obtain r2 where
    r2: "fmul fmt (Fin r1) (Fin c2) = Fin r2" "r1 * c2 * (1 - \<epsilon>) \<le> r2" "r2 \<le> r1 * c2 * (1 + \<epsilon>)"
    unfolding \<epsilon>_def by blast
  have "q * c1 * (1 - \<epsilon>) * (c2 * (1 - \<epsilon>)) \<le> r1 * (c2 * (1 - \<epsilon>))"
    using r1(2) c(2) e by (intro mult_right_mono) simp_all
  with r2(2) have lo: "c1 * c2 * (1 - \<epsilon>)\<^sup>2 * q \<le> r2"
    by (simp add: power2_eq_square mult_ac)
  have "r1 * (c2 * (1 + \<epsilon>)) \<le> q * c1 * (1 + \<epsilon>) * (c2 * (1 + \<epsilon>))"
    using r1(3) c(2) e by (intro mult_right_mono) simp_all
  with r2(3) have hi: "r2 \<le> c1 * c2 * (1 + \<epsilon>)\<^sup>2 * q"
    by (simp add: power2_eq_square mult_ac)
  from r1(1) r2(1) lo hi show ?thesis by simp
qed

subsection \<open>Equality of close values\<close>

lemma feq_close:
  fixes q r A B L U lo hi nlo nhi g maxv minv :: rat
  assumes p: "0 < prec fmt"
    and q: "0 < A" "A \<le> q" "q \<le> B"
    and r: "L * q \<le> r" "r \<le> U * q"
    and eps: "fsub fmt (Fin 1) eps = Fin lo" "fadd fmt (Fin 1) eps = Fin hi"
    and nlo: "rnd fmt nlo = Fin nlo" "lo < nlo" "nlo \<le> L" "2 powi (1 - emax fmt) \<le> nlo"
    and nhi: "rnd fmt nhi = Fin nhi" "U \<le> nhi" "nhi < hi"
    and g1: "numeric_max fmt = Fin maxv" "rnd fmt 2 = Fin 2" "2 \<le> A * maxv" "U \<le> 2"
    and g2: "numeric_min fmt = Fin minv" "0 < minv" "rnd fmt g = Fin g" "B * minv \<le> g" "g \<le> L"
  shows "feq fmt (Fin r) (Fin q) eps"
proof -
  have "(0::rat) < 2 powi (1 - emax fmt)" by simp
  then have nlopos: "0 < nlo" using nlo(4) by (rule less_le_trans)
  then have Lpos: "0 < L" using nlo(3) by simp
  have qpos: "0 < q" using q by simp
  have "0 < L * q" using Lpos qpos by simp
  then have rpos: "0 < r" using r(1) by simp
  have "L * q \<le> U * q" using r by simp
  then have LU: "L \<le> U" using qpos by (simp only: mult_le_cancel_right_pos)
  have nz: "\<not> fequal (Fin r) (Fin 0)" "\<not> fequal (Fin q) (Fin 0)"
    using rpos qpos by (simp_all add: fequal_def)
  have ab: "fabs (Fin r) = Fin r" "fabs (Fin q) = Fin q" using rpos qpos by simp_all
  have maxpos: "0 < maxv"
  proof (rule ccontr)
    assume "\<not> 0 < maxv"
    then have "A * maxv \<le> 0" using q(1) by (simp add: mult_le_0_iff)
    with g1(3) show False by simp
  qed
  have guard1: "\<not> fgt (Fin r) (fmul fmt (Fin q) (Fin maxv))" if "q < 1"
  proof -
    have "A * maxv \<le> q * maxv" using q(2) maxpos by (simp add: mult_right_mono)
    with g1(3) have s2: "2 \<le> q * maxv" by simp
    have "2 powi (1 - emax fmt) \<le> q * maxv" using nlo(4) nlo(3) LU g1(4) s2 by linarith
    with rnd_ge_float [OF p _ g1(2) s2]
    have c: "rnd fmt (q * maxv) = PInf \<or> (\<exists>t. rnd fmt (q * maxv) = Fin t \<and> 2 \<le> t)" by simp
    have "U * q \<le> U * 1" using that Lpos LU by (intro mult_left_mono) simp_all
    with r(2) g1(4) have "r \<le> 2" by simp
    with c show ?thesis by (auto simp add: fgt_def)
  qed
  have guard2: "\<not> flt (Fin r) (fmul fmt (Fin q) (Fin minv))" if "1 < q"
  proof -
    have "q * minv \<le> B * minv" using q(3) g2(2) by (simp add: mult_right_mono)
    with g2(4) have le: "q * minv \<le> g" by simp
    have "0 < q * minv" using qpos g2(2) by simp
    from rnd_le_float [OF this le g2(3)] obtain t where
      t: "rnd fmt (q * minv) = Fin t" "t \<le> g" by blast
    have "L * 1 \<le> L * q" using that Lpos by (intro mult_left_mono) simp_all
    with r(1) g2(5) t(2) have "t \<le> r" by simp
    with t(1) show ?thesis by simp
  qed
  define s where "s = r / q"
  have sL: "L \<le> s" unfolding s_def using r(1) qpos by (simp add: pos_le_divide_eq)
  have sU: "s \<le> U" unfolding s_def using r(2) qpos by (simp add: pos_divide_le_eq)
  have spos: "0 < s" using sL Lpos by simp
  from rnd_le_float [OF spos _ nhi(1)] sU nhi(2) obtain t where
    t: "rnd fmt s = Fin t" "t \<le> nhi" by auto
  have "nlo \<le> s" "2 powi (1 - emax fmt) \<le> s" using nlo(3,4) sL by simp_all
  from rnd_ge_float [OF p nlopos nlo(1) this] t(1) have "nlo \<le> t" by simp
  have dv: "fdiv fmt (Fin r) (Fin q) = Fin t" using qpos t(1) by (simp add: s_def)
  have "fgt (Fin t) (Fin lo)" "flt (Fin t) (Fin hi)"
    using \<open>nlo \<le> t\<close> nlo(2) t(2) nhi(3) by (simp_all add: fgt_def)
  then show ?thesis
    using guard1 guard2 nz
    unfolding feq_def Let_def ab dv eps g1(1) g2(1)
    by (simp add: fgt_def)
qed

lemma feq_neg:
  "feq fmt (Fin (- r)) (Fin (- q)) eps = feq fmt (Fin r) (Fin q) eps"
  by (simp add: feq_def fequal_def Let_def)

lemma fmul_neg:
  "fmul fmt (Fin (- a)) (Fin c) = fneg (fmul fmt (Fin a) (Fin c))"
  using rnd_minus [of fmt "a * c"] by simp

lemma round_trip_feq:
  fixes q A B c1 c2 lo hi nlo nhi g maxv minv :: rat and fmt :: format
  defines "\<epsilon> \<equiv> 2 powi (- int (prec fmt))"
  assumes p: "0 < prec fmt" and c: "0 < c1" "0 < c2" and q: "0 < A" "A \<le> \<bar>q\<bar>" "\<bar>q\<bar> \<le> B"
    and r1: "2 powi (1 - emax fmt) \<le> A * c1" "B * c1 \<le> 2 powi (emax fmt)"
    and r2: "2 powi (1 - emax fmt) \<le> A * c1 * (1 - \<epsilon>) * c2" "B * c1 * (1 + \<epsilon>) * c2 \<le> 2 powi (emax fmt)"
    and eps: "fsub fmt (Fin 1) eps = Fin lo" "fadd fmt (Fin 1) eps = Fin hi"
    and nlo: "rnd fmt nlo = Fin nlo" "lo < nlo" "nlo \<le> c1 * c2 * (1 - \<epsilon>)\<^sup>2" "2 powi (1 - emax fmt) \<le> nlo"
    and nhi: "rnd fmt nhi = Fin nhi" "c1 * c2 * (1 + \<epsilon>)\<^sup>2 \<le> nhi" "nhi < hi"
    and g1: "numeric_max fmt = Fin maxv" "rnd fmt 2 = Fin 2" "2 \<le> A * maxv" "c1 * c2 * (1 + \<epsilon>)\<^sup>2 \<le> 2"
    and g2: "numeric_min fmt = Fin minv" "0 < minv" "rnd fmt g = Fin g" "B * minv \<le> g"
      "g \<le> c1 * c2 * (1 - \<epsilon>)\<^sup>2"
  shows "feq fmt (fmul fmt (fmul fmt (Fin q) (Fin c1)) (Fin c2)) (Fin q) eps"
proof -
  have pos: "feq fmt (fmul fmt (fmul fmt (Fin t) (Fin c1)) (Fin c2)) (Fin t) eps"
    if t: "A \<le> t" "t \<le> B" for t
  proof -
    from round_trip_bounds [OF p c q(1) t r1 r2 [unfolded \<epsilon>_def]] obtain r where
      r: "fmul fmt (fmul fmt (Fin t) (Fin c1)) (Fin c2) = Fin r"
        "c1 * c2 * (1 - \<epsilon>)\<^sup>2 * t \<le> r" "r \<le> c1 * c2 * (1 + \<epsilon>)\<^sup>2 * t"
      unfolding \<epsilon>_def by blast
    show ?thesis
      unfolding r(1)
      by (rule feq_close [OF p q(1) t r(2,3) eps nlo nhi g1 g2])
  qed
  show ?thesis
  proof (cases "0 \<le> q")
    case True
    with q pos [of q] show ?thesis by simp
  next
    case False
    define t where "t = - q"
    have t: "A \<le> t" "t \<le> B" "q = - t" using False q by (simp_all add: t_def)
    from pos [OF t(1,2)] have f: "feq fmt (fmul fmt (fmul fmt (Fin t) (Fin c1)) (Fin c2)) (Fin t) eps" .
    obtain r where r1: "fmul fmt (Fin t) (Fin c1) = r" by simp
    have "fmul fmt (fmul fmt (Fin (- t)) (Fin c1)) (Fin c2) =
        fneg (fmul fmt (fmul fmt (Fin t) (Fin c1)) (Fin c2))"
    proof (cases "fmul fmt (Fin t) (Fin c1)")
      case (Fin a)
      then show ?thesis using fmul_neg [of fmt t c1] fmul_neg [of fmt a c2] by simp
    next
      case PInf
      then show ?thesis using fmul_neg [of fmt t c1] c(2) by simp
    next
      case NInf
      then show ?thesis using fmul_neg [of fmt t c1] c(2) by simp
    next
      case NaN
      then show ?thesis using fmul_neg [of fmt t c1] by simp
    qed
    moreover from f obtain b where "fmul fmt (fmul fmt (Fin t) (Fin c1)) (Fin c2) = Fin b"
      by (cases "fmul fmt (fmul fmt (Fin t) (Fin c1)) (Fin c2)")
        (simp_all add: feq_def fequal_def Let_def fgt_def split: if_splits)
    ultimately show ?thesis using f feq_neg [of fmt b t eps] by (simp add: t(3))
  qed
qed

subsection \<open>The angle constants and tolerances\<close>

lemma Pi_double_value: "Pi_double = Fin (884279719003555 / 2 ^ 48)"
proof -
  have "rnd binary64 (31415926535897932 / 10 ^ 16) = Fin (of_int 7074237752028440 * 2 powi (- 51))"
    by (rule rnd_nearest [where e = 1]) (simp_all add: binary64_def)
  then show ?thesis by (simp add: Pi_double_def)
qed

lemma rad_to_deg_const64:
  "fcast binary64 (fdiv binary64 (Fin 180) Pi_double) = Fin (1007958012753983 / 2 ^ 44)"
proof -
  have "rnd binary64 (180 / (884279719003555 / 2 ^ 48)) = Fin (of_int 8063664102031864 * 2 powi (- 47))"
    by (rule rnd_nearest [where e = 5]) (simp_all add: binary64_def)
  then have "fdiv binary64 (Fin 180) Pi_double = Fin (1007958012753983 / 2 ^ 44)"
    by (simp add: Pi_double_value)
  moreover have "rnd binary64 (1007958012753983 / 2 ^ 44) = Fin (1007958012753983 / 2 ^ 44)"
    by (rule rnd_exact [where m = 1007958012753983 and k = "- 44"]) (simp_all add: binary64_def)
  ultimately show ?thesis by simp
qed

lemma deg_to_rad_const64:
  "fcast binary64 (fdiv binary64 Pi_double (Fin 180)) = Fin (5030569068109113 / 2 ^ 58)"
proof -
  have "rnd binary64 (884279719003555 / 2 ^ 48 / 180) = Fin (of_int 5030569068109113 * 2 powi (- 58))"
    by (rule rnd_nearest [where e = "- 6"]) (simp_all add: binary64_def)
  then have "fdiv binary64 Pi_double (Fin 180) = Fin (5030569068109113 / 2 ^ 58)"
    by (simp add: Pi_double_value)
  moreover have "rnd binary64 (5030569068109113 / 2 ^ 58) = Fin (5030569068109113 / 2 ^ 58)"
    by (rule rnd_exact [where m = 5030569068109113 and k = "- 58"]) (simp_all add: binary64_def)
  ultimately show ?thesis by simp
qed

lemma rad_to_deg_const32:
  "fcast binary32 (fdiv binary64 (Fin 180) Pi_double) = Fin (15019745 / 2 ^ 18)"
proof -
  have "rnd binary64 (180 / (884279719003555 / 2 ^ 48)) = Fin (of_int 8063664102031864 * 2 powi (- 47))"
    by (rule rnd_nearest [where e = 5]) (simp_all add: binary64_def)
  then have "fdiv binary64 (Fin 180) Pi_double = Fin (1007958012753983 / 2 ^ 44)"
    by (simp add: Pi_double_value)
  moreover have "rnd binary32 (1007958012753983 / 2 ^ 44) = Fin (of_int 15019745 * 2 powi (- 18))"
    by (rule rnd_nearest [where e = 5]) (simp_all add: binary32_def)
  ultimately show ?thesis by simp
qed

lemma deg_to_rad_const32:
  "fcast binary32 (fdiv binary64 Pi_double (Fin 180)) = Fin (9370165 / 2 ^ 29)"
proof -
  have "rnd binary64 (884279719003555 / 2 ^ 48 / 180) = Fin (of_int 5030569068109113 * 2 powi (- 58))"
    by (rule rnd_nearest [where e = "- 6"]) (simp_all add: binary64_def)
  then have "fdiv binary64 Pi_double (Fin 180) = Fin (5030569068109113 / 2 ^ 58)"
    by (simp add: Pi_double_value)
  moreover have "rnd binary32 (5030569068109113 / 2 ^ 58) = Fin (of_int 9370165 * 2 powi (- 29))"
    by (rule rnd_nearest [where e = "- 6"]) (simp_all add: binary32_def)
  ultimately show ?thesis by simp
qed

lemma default_eps_double_value: "default_eps_double = Fin (6338253001141147 / 2 ^ 99)"
proof -
  have "rnd binary64 (1 / 10 ^ 14) = Fin (of_int 6338253001141147 * 2 powi (- 99))"
    by (rule rnd_nearest [where e = "- 47"]) (simp_all add: binary64_def)
  then show ?thesis by (simp add: default_eps_double_def)
qed

lemma default_eps_float_value: "default_eps_float = Fin (8796093 / 2 ^ 43)"
proof -
  have "rnd binary32 (1 / 10 ^ 6) = Fin (of_int 8796093 * 2 powi (- 43))"
    by (rule rnd_nearest [where e = "- 20"]) (simp_all add: binary32_def)
  then show ?thesis by (simp add: default_eps_float_def)
qed

lemma eps_interval64:
  "fsub binary64 (Fin 1) default_eps_double = Fin (4503599627370451 / 2 ^ 52)"
  "fadd binary64 (Fin 1) default_eps_double = Fin (4503599627370541 / 2 ^ 52)"
proof -
  have "rnd binary64 (1 - 6338253001141147 / 2 ^ 99) = Fin (of_int 9007199254740902 * 2 powi (- 53))"
    by (rule rnd_nearest [where e = "- 1"]) (simp_all add: binary64_def)
  then show "fsub binary64 (Fin 1) default_eps_double = Fin (4503599627370451 / 2 ^ 52)"
    by (simp add: default_eps_double_value fsub_def)
  have "rnd binary64 (1 + 6338253001141147 / 2 ^ 99) = Fin (of_int 4503599627370541 * 2 powi (- 52))"
    by (rule rnd_nearest [where e = 0]) (simp_all add: binary64_def)
  then show "fadd binary64 (Fin 1) default_eps_double = Fin (4503599627370541 / 2 ^ 52)"
    by (simp add: default_eps_double_value)
qed

lemma eps_interval32:
  "fsub binary32 (Fin 1) default_eps_float = Fin (16777199 / 2 ^ 24)"
  "fadd binary32 (Fin 1) default_eps_float = Fin (8388616 / 2 ^ 23)"
proof -
  have "rnd binary32 (1 - 8796093 / 2 ^ 43) = Fin (of_int 16777199 * 2 powi (- 24))"
    by (rule rnd_nearest [where e = "- 1"]) (simp_all add: binary32_def)
  then show "fsub binary32 (Fin 1) default_eps_float = Fin (16777199 / 2 ^ 24)"
    by (simp add: default_eps_float_value fsub_def)
  have "rnd binary32 (1 + 8796093 / 2 ^ 43) = Fin (of_int 8388616 * 2 powi (- 23))"
    by (rule rnd_nearest [where e = 0]) (simp_all add: binary32_def)
  then show "fadd binary32 (Fin 1) default_eps_float = Fin (8388616 / 2 ^ 23)"
    by (simp add: default_eps_float_value)
qed

subsection \<open>Degrees to radians and back\<close>

lemma rnd64_bounds:
  "rnd binary64 (1 - 2 powi (- 50)) = Fin (1 - 2 powi (- 50))"
  "rnd binary64 (1 + 2 powi (- 50)) = Fin (1 + 2 powi (- 50))"
  "rnd binary64 (2 powi (- 5)) = Fin (2 powi (- 5))"
  by (rule rnd_exact [where m = "2 ^ 50 - 1" and k = "- 50"], simp_all add: binary64_def)
    (rule rnd_exact [where m = "2 ^ 50 + 1" and k = "- 50"], simp_all add: binary64_def,
     rule rnd_exact [where m = 1 and k = "- 5"], simp_all add: binary64_def)

lemma rnd32_bounds:
  "rnd binary32 (1 - 2 powi (- 22)) = Fin (1 - 2 powi (- 22))"
  "rnd binary32 (1 + 2 powi (- 22)) = Fin (1 + 2 powi (- 22))"
  "rnd binary32 (2 powi (- 5)) = Fin (2 powi (- 5))"
  "rnd binary32 2 = Fin 2"
  by (rule rnd_exact [where m = "2 ^ 22 - 1" and k = "- 22"], simp_all add: binary32_def)
    (rule rnd_exact [where m = "2 ^ 22 + 1" and k = "- 22"], simp_all add: binary32_def,
     rule rnd_exact [where m = 1 and k = "- 5"], simp_all add: binary32_def,
     rule rnd_exact [where m = 1 and k = 1], simp_all add: binary32_def)

lemma round_trip64_deg:
  assumes "2 powi (- 1016) \<le> \<bar>q\<bar>" "\<bar>q\<bar> \<le> 2 powi 1017"
  shows "feq binary64 (deg_to_rad binary64 (rad_to_deg binary64 (Fin q))) (Fin q) default_eps_double"
  unfolding deg_to_rad_def rad_to_deg_def rad_to_deg_const64 deg_to_rad_const64
proof (rule round_trip_feq [where A = "2 powi (- 1016)" and B = "2 powi 1017"
      and nlo = "1 - 2 powi (- 50)" and nhi = "1 + 2 powi (- 50)" and g = "2 powi (- 5)"
      and lo = "4503599627370451 / 2 ^ 52" and hi = "4503599627370541 / 2 ^ 52"
      and maxv = "(2 - 2 powi (1 - int 53)) * 2 powi 1023" and minv = "2 powi (1 - 1023)"])
qed (use assms eps_interval64 rnd64_bounds rnd64_two in
    \<open>simp_all add: binary64_def numeric_max_def numeric_min_def power2_eq_square\<close>)

lemma round_trip64_rad:
  assumes "2 powi (- 1016) \<le> \<bar>q\<bar>" "\<bar>q\<bar> \<le> 2 powi 1017"
  shows "feq binary64 (rad_to_deg binary64 (deg_to_rad binary64 (Fin q))) (Fin q) default_eps_double"
  unfolding deg_to_rad_def rad_to_deg_def rad_to_deg_const64 deg_to_rad_const64
proof (rule round_trip_feq [where A = "2 powi (- 1016)" and B = "2 powi 1017"
      and nlo = "1 - 2 powi (- 50)" and nhi = "1 + 2 powi (- 50)" and g = "2 powi (- 5)"
      and lo = "4503599627370451 / 2 ^ 52" and hi = "4503599627370541 / 2 ^ 52"
      and maxv = "(2 - 2 powi (1 - int 53)) * 2 powi 1023" and minv = "2 powi (1 - 1023)"])
qed (use assms eps_interval64 rnd64_bounds rnd64_two in
    \<open>simp_all add: binary64_def numeric_max_def numeric_min_def power2_eq_square\<close>)

lemma round_trip32_deg:
  assumes "2 powi (- 120) \<le> \<bar>q\<bar>" "\<bar>q\<bar> \<le> 2 powi 121"
  shows "feq binary32 (deg_to_rad binary32 (rad_to_deg binary32 (Fin q))) (Fin q) default_eps_float"
  unfolding deg_to_rad_def rad_to_deg_def rad_to_deg_const32 deg_to_rad_const32
proof (rule round_trip_feq [where A = "2 powi (- 120)" and B = "2 powi 121"
      and nlo = "1 - 2 powi (- 22)" and nhi = "1 + 2 powi (- 22)" and g = "2 powi (- 5)"
      and lo = "16777199 / 2 ^ 24" and hi = "8388616 / 2 ^ 23"
      and maxv = "(2 - 2 powi (1 - int 24)) * 2 powi 127" and minv = "2 powi (1 - 127)"])
qed (use assms eps_interval32 rnd32_bounds  in
    \<open>simp_all add: binary32_def numeric_max_def numeric_min_def power2_eq_square\<close>)

lemma round_trip32_rad:
  assumes "2 powi (- 120) \<le> \<bar>q\<bar>" "\<bar>q\<bar> \<le> 2 powi 121"
  shows "feq binary32 (rad_to_deg binary32 (deg_to_rad binary32 (Fin q))) (Fin q) default_eps_float"
  unfolding deg_to_rad_def rad_to_deg_def rad_to_deg_const32 deg_to_rad_const32
proof (rule round_trip_feq [where A = "2 powi (- 120)" and B = "2 powi 121"
      and nlo = "1 - 2 powi (- 22)" and nhi = "1 + 2 powi (- 22)" and g = "2 powi (- 5)"
      and lo = "16777199 / 2 ^ 24" and hi = "8388616 / 2 ^ 23"
      and maxv = "(2 - 2 powi (1 - int 24)) * 2 powi 127" and minv = "2 powi (1 - 127)"])
qed (use assms eps_interval32 rnd32_bounds  in
    \<open>simp_all add: binary32_def numeric_max_def numeric_min_def power2_eq_square\<close>)

lemma rnd_overflow:
  assumes p: "0 < prec fmt" and e: "0 \<le> emax fmt" and s: "2 powi (emax fmt + 1) \<le> s"
  shows "rnd fmt s = PInf"
proof -
  have "(0::rat) < 2 powi (emax fmt + 1)" by simp
  then have spos: "0 < s" using s by (rule less_le_trans)
  have "(2::rat) powi (1 - emax fmt) \<le> 2 powi (emax fmt + 1)"
    using e by (simp add: two_powi_le_iff)
  then have normal: "2 powi (1 - emax fmt) \<le> s" using s by (rule order_trans)
  define u :: rat where "u = 2 powi (ilog2 s - (int (prec fmt) - 1))"
  have u: "quantum fmt s = u" unfolding u_def using normal by (rule quantum_normal)
  have upos: "0 < u" by (simp add: u_def)
  define j where "j = prec fmt - 1"
  have j: "int j = int (prec fmt) - 1" using p by (simp add: j_def)
  have "2 powi (ilog2 s) / u = 2 powi (ilog2 s - (ilog2 s - (int (prec fmt) - 1)))"
    unfolding u_def by (rule power_int_diff [symmetric]) simp
  also have "ilog2 s - (ilog2 s - (int (prec fmt) - 1)) = int j" using j by simp
  also have "(2::rat) powi int j = of_int (2 ^ j)" by simp
  finally have pe: "2 powi (ilog2 s) / u = of_int (2 ^ j)" .
  have "2 powi (ilog2 s) \<le> s" using spos by (rule ilog2_bounds)
  then have "of_int (2 ^ j) \<le> s / u" unfolding pe [symmetric] using upos by (simp add: divide_right_mono)
  then have "2 ^ j \<le> rne (s / u)" by (rule rne_ge_int)
  then have "(of_int (2 ^ j) :: rat) \<le> of_int (rne (s / u))" by (simp only: of_int_le_iff)
  then have "of_int (2 ^ j) * u \<le> of_int (rne (s / u)) * u"
    using upos by (intro mult_right_mono) simp_all
  moreover have "of_int (2 ^ j) * u = 2 powi (ilog2 s)" unfolding pe [symmetric] using upos by simp
  moreover have "emax fmt + 1 \<le> ilog2 s" using s by (rule ilog2_normal)
  then have "(2::rat) powi (emax fmt + 1) \<le> 2 powi (ilog2 s)" by (simp only: two_powi_le_iff)
  ultimately have "2 powi (emax fmt + 1) \<le> of_int (rne (s / u)) * u" by simp
  then show ?thesis by (simp add: rnd_pos_unfold [OF spos] u)
qed

lemma feq_zero: "feq fmt (Fin 0) (Fin 0) eps = flt (Fin 0) eps"
  by (simp add: feq_def fequal_def)

text \<open>
  Claim C5, as amended.  For \<open>x = 0\<close> and for every finite \<open>x\<close> with
  \<open>2^-1016 \<le> |x| \<le> 2^1017\<close> in \<open>double\<close> (\<open>2^-120 \<le> |x| \<le> 2^121\<close> in \<open>float\<close>),
  \<open>deg_to_rad(rad_to_deg(x))\<close> and \<open>rad_to_deg(deg_to_rad(x))\<close> are equal to \<open>x\<close> in the sense of
  \<open>feq\<close> with the default tolerance of the type.  In these ranges neither conversion
  overflows or leaves the normal range.
\<close>

theorem angle_round_trip:
  "((q = 0 \<or> 2 powi (- 1016) \<le> \<bar>q\<bar> \<and> \<bar>q\<bar> \<le> 2 powi 1017) \<longrightarrow>
      feq binary64 (deg_to_rad binary64 (rad_to_deg binary64 (Fin q))) (Fin q) default_eps_double \<and>
      feq binary64 (rad_to_deg binary64 (deg_to_rad binary64 (Fin q))) (Fin q) default_eps_double) \<and>
   ((s = 0 \<or> 2 powi (- 120) \<le> \<bar>s\<bar> \<and> \<bar>s\<bar> \<le> 2 powi 121) \<longrightarrow>
      feq binary32 (deg_to_rad binary32 (rad_to_deg binary32 (Fin s))) (Fin s) default_eps_float \<and>
      feq binary32 (rad_to_deg binary32 (deg_to_rad binary32 (Fin s))) (Fin s) default_eps_float)"
proof (intro conjI impI)
  assume h: "q = 0 \<or> 2 powi (- 1016) \<le> \<bar>q\<bar> \<and> \<bar>q\<bar> \<le> 2 powi 1017"
  show "feq binary64 (deg_to_rad binary64 (rad_to_deg binary64 (Fin q))) (Fin q) default_eps_double"
  proof (cases "q = 0")
    case True
    then show ?thesis
      unfolding deg_to_rad_def rad_to_deg_def rad_to_deg_const64 deg_to_rad_const64
      by (simp add: feq_zero default_eps_double_value)
  next
    case False
    with h show ?thesis using round_trip64_deg [of q] by simp
  qed
  show "feq binary64 (rad_to_deg binary64 (deg_to_rad binary64 (Fin q))) (Fin q) default_eps_double"
  proof (cases "q = 0")
    case True
    then show ?thesis
      unfolding deg_to_rad_def rad_to_deg_def rad_to_deg_const64 deg_to_rad_const64
      by (simp add: feq_zero default_eps_double_value)
  next
    case False
    with h show ?thesis using round_trip64_rad [of q] by simp
  qed
next
  assume h: "s = 0 \<or> 2 powi (- 120) \<le> \<bar>s\<bar> \<and> \<bar>s\<bar> \<le> 2 powi 121"
  show "feq binary32 (deg_to_rad binary32 (rad_to_deg binary32 (Fin s))) (Fin s) default_eps_float"
  proof (cases "s = 0")
    case True
    then show ?thesis
      unfolding deg_to_rad_def rad_to_deg_def rad_to_deg_const32 deg_to_rad_const32
      by (simp add: feq_zero default_eps_float_value)
  next
    case False
    with h show ?thesis using round_trip32_deg [of s] by simp
  qed
  show "feq binary32 (rad_to_deg binary32 (deg_to_rad binary32 (Fin s))) (Fin s) default_eps_float"
  proof (cases "s = 0")
    case True
    then show ?thesis
      unfolding deg_to_rad_def rad_to_deg_def rad_to_deg_const32 deg_to_rad_const32
      by (simp add: feq_zero default_eps_float_value)
  next
    case False
    with h show ?thesis using round_trip32_rad [of s] by simp
  qed
qed

text \<open>At one radian in \<open>double\<close> and at ninety degrees in \<open>float\<close>.\<close>

theorem angle_round_trip_witness:
  "feq binary64 (deg_to_rad binary64 (rad_to_deg binary64 (Fin 1))) (Fin 1) default_eps_double \<and>
   feq binary64 (rad_to_deg binary64 (deg_to_rad binary64 (Fin 1))) (Fin 1) default_eps_double \<and>
   feq binary32 (deg_to_rad binary32 (rad_to_deg binary32 (Fin 90))) (Fin 90) default_eps_float \<and>
   feq binary32 (rad_to_deg binary32 (deg_to_rad binary32 (Fin 90))) (Fin 90) default_eps_float"
  using angle_round_trip [of 1 90] by simp

text \<open>
  Claim C5 as stated, for every \<open>x\<close>, fails at the largest \<open>double\<close>: \<open>rad_to_deg\<close> overflows
  to infinity, \<open>deg_to_rad\<close> keeps the infinity, and \<open>feq\<close> of an infinity and a finite value
  is false.
\<close>

theorem angle_round_trip_counterexample:
  "is_float binary64 (numeric_max binary64) \<and> is_finite (numeric_max binary64) \<and>
   rad_to_deg binary64 (numeric_max binary64) = PInf \<and>
   deg_to_rad binary64 (rad_to_deg binary64 (numeric_max binary64)) = PInf \<and>
   \<not> feq binary64 (deg_to_rad binary64 (rad_to_deg binary64 (numeric_max binary64)))
      (numeric_max binary64) default_eps_double"
proof -
  have m: "rnd binary64 ((2 - 2 powi (1 - int 53)) * 2 powi 1023) = Fin ((2 - 2 powi (1 - int 53)) * 2 powi 1023)"
    by (rule rnd_exact [where m = "2 ^ 53 - 1" and k = 971]) (simp_all add: binary64_def)
  then have fl: "is_float binary64 (numeric_max binary64)" "is_finite (numeric_max binary64)"
    by (simp_all add: is_float_def is_finite_def numeric_max_def binary64_def)
  have "rnd binary64 ((2 - 2 powi (1 - int 53)) * 2 powi 1023 * (1007958012753983 / 2 ^ 44)) = PInf"
    by (rule rnd_overflow) (simp_all add: binary64_def)
  then have a: "rad_to_deg binary64 (numeric_max binary64) = PInf"
    unfolding rad_to_deg_def rad_to_deg_const64 by (simp add: numeric_max_def binary64_def)
  have b: "deg_to_rad binary64 PInf = PInf"
    unfolding deg_to_rad_def deg_to_rad_const64 by simp
  have "\<not> feq binary64 PInf (numeric_max binary64) default_eps_double"
    by (simp add: feq_def fequal_def Let_def numeric_max_def binary64_def fgt_def)
  with fl a b show ?thesis by simp
qed

subsection \<open>Halves round away from zero\<close>

lemma half_not_int: "of_int k + 1 / 2 \<noteq> (of_int z :: rat)"
proof
  assume "of_int k + 1 / 2 = (of_int z :: rat)"
  then have "(of_int (2 * k + 1) :: rat) = of_int (2 * z)" by (simp add: field_simps)
  then have "2 * k + 1 = 2 * z" by (simp only: of_int_eq_iff)
  then show False by presburger
qed

lemma rnd_int_multiple:
  assumes s: "0 < s" and m: "s / quantum fmt s = of_int z" and b: "s < 2 powi (emax fmt + 1)"
  shows "rnd fmt s = Fin s"
proof -
  have "rne (s / quantum fmt s) = z" unfolding m by (rule rne_of_int)
  then have "of_int (rne (s / quantum fmt s)) * quantum fmt s = s / quantum fmt s * quantum fmt s"
    by (simp only: m)
  also have "\<dots> = s" using quantum_pos [of fmt s] by simp
  finally show ?thesis using b by (simp add: rnd_pos_unfold [OF s] not_le)
qed

lemma half_plus_half:
  assumes p: "0 < prec fmt" and k: "0 \<le> k"
    and fl: "rnd fmt (of_int k + 1 / 2) = Fin (of_int k + 1 / 2)"
    and b: "of_int k + 1 < (2::rat) powi (emax fmt + 1)"
  shows "rnd fmt (of_int k + 1) = Fin (of_int k + 1)"
proof -
  define q :: rat where "q = of_int k + 1 / 2"
  define q' :: rat where "q' = of_int k + 1"
  have qpos: "0 < q" and q'pos: "0 < q'" and qq: "q \<le> q'" and q'q: "q' = q + 1 / 2"
    using k by (simp_all add: q_def q'_def)
  define kq where "kq = max (ilog2 q) (1 - emax fmt) - (int (prec fmt) - 1)"
  define kq' where "kq' = max (ilog2 q') (1 - emax fmt) - (int (prec fmt) - 1)"
  have u: "quantum fmt q = 2 powi kq" using qpos by (simp add: quantum_def kq_def)
  have u': "quantum fmt q' = 2 powi kq'" using q'pos by (simp add: quantum_def kq'_def)
  have mono: "ilog2 q \<le> ilog2 q'" using qpos qq by (rule ilog2_mono)
  then have kk: "kq \<le> kq'" by (simp add: kq_def kq'_def)
  define M where "M = rne (q / 2 powi kq)"
  have qM: "q = of_int M * 2 powi kq"
    using float_pos_multiple(1) [OF qpos fl [folded q_def]] unfolding u M_def .
  have neg: "kq \<le> - 1"
  proof (rule ccontr)
    assume "\<not> kq \<le> - 1"
    then have "0 \<le> kq" by simp
    then have "(2::rat) powi kq = of_int (2 ^ nat kq)" by (simp add: power_int_def)
    with qM have "q = of_int (M * 2 ^ nat kq)" by simp
    then show False unfolding q_def using half_not_int by blast
  qed
  have "\<exists>z. q' / 2 powi kq' = of_int z"
  proof (cases "kq' = kq")
    case True
    define j where "j = nat (- 1 - kq)"
    have j: "int j = - 1 - kq" using neg by (simp add: j_def)
    have "(1 / 2 :: rat) / 2 powi kq = 2 powi (- 1) / 2 powi kq" by simp
    also have "\<dots> = 2 powi (- 1 - kq)" by (rule power_int_diff [symmetric]) simp
    also have "\<dots> = 2 powi int j" by (simp only: j)
    also have "\<dots> = of_int (2 ^ j)" by simp
    finally have h: "(1 / 2 :: rat) / 2 powi kq = of_int (2 ^ j)" .
    have "q' / 2 powi kq = q / 2 powi kq + (1 / 2) / 2 powi kq"
      unfolding q'q by (simp add: add_divide_distrib)
    also have "q / 2 powi kq = of_int M" using qM by simp
    finally have "q' / 2 powi kq = of_int (M + 2 ^ j)" using h by simp
    then show ?thesis unfolding True by blast
  next
    case False
    with kk have lt: "kq < kq'" by simp
    then have e1: "ilog2 q < ilog2 q'" and en: "1 - emax fmt < ilog2 q'"
      by (auto simp add: kq_def kq'_def max_def split: if_splits)
    then have kq'_eq: "kq' = ilog2 q' - (int (prec fmt) - 1)" by (simp add: kq'_def)
    have "2 powi (- 1) \<le> q" using k by (simp add: q_def)
    then have e0: "- 1 \<le> ilog2 q" by (rule ilog2_normal)
    define Z where "Z = (2::int) ^ nat (ilog2 q + 1)"
    have Z: "(2::rat) powi (ilog2 q + 1) = of_int Z" using e0 by (simp add: Z_def power_int_def)
    have "q < 2 powi (ilog2 q + 1)" using qpos by (rule ilog2_bounds)
    then have "q < of_int Z" by (simp only: Z)
    then have "(of_int k :: rat) < of_int Z" by (simp add: q_def)
    then have kZ: "k < Z" by (simp only: of_int_less_iff)
    have "ilog2 q + 1 \<le> ilog2 q'" using e1 by simp
    then have "(2::rat) powi (ilog2 q + 1) \<le> 2 powi (ilog2 q')" by (simp only: two_powi_le_iff)
    also have "\<dots> \<le> q'" using q'pos by (rule ilog2_bounds)
    finally have "2 powi (ilog2 q + 1) \<le> q'" .
    then have "of_int Z \<le> q'" by (simp only: Z)
    then have "(of_int Z :: rat) \<le> of_int (k + 1)" by (simp add: q'_def)
    then have "Z \<le> k + 1" by (simp only: of_int_le_iff)
    with kZ have "Z = k + 1" by simp
    then have "q' = of_int Z" by (simp add: q'_def)
    then have q'Z: "q' = 2 powi (ilog2 q + 1)" by (simp only: Z)
    have "ilog2 q' = ilog2 q + 1"
    proof (rule ilog2_unique)
      show "2 powi (ilog2 q + 1) \<le> q'" using q'Z by simp
      show "q' < 2 powi (ilog2 q + 1 + 1)" unfolding q'Z by (simp add: two_powi_less_iff)
    qed
    then have q'e: "q' = 2 powi (ilog2 q')" using q'Z by simp
    define j where "j = prec fmt - 1"
    have j: "int j = int (prec fmt) - 1" using p by (simp add: j_def)
    have "q' / 2 powi kq' = 2 powi (ilog2 q') / 2 powi (ilog2 q' - (int (prec fmt) - 1))"
      using q'e kq'_eq by simp
    also have "\<dots> = 2 powi (ilog2 q' - (ilog2 q' - (int (prec fmt) - 1)))"
      by (rule power_int_diff [symmetric]) simp
    also have "ilog2 q' - (ilog2 q' - (int (prec fmt) - 1)) = int j" using j by simp
    also have "(2::rat) powi int j = of_int (2 ^ j)" by simp
    finally show ?thesis by blast
  qed
  then obtain z where "q' / quantum fmt q' = of_int z" unfolding u' by blast
  from rnd_int_multiple [OF q'pos this] b show ?thesis by (simp add: q'_def)
qed

lemma truncate_int_value:
  assumes "int_range sg LENGTH('a) z" "sse \<longrightarrow> int_range Signed 32 z"
  shows "truncate sse sg (Fin (of_int z)) = Some (word_of_int z :: 'a::len word)"
proof (cases sse)
  case True
  with assms have "truncate True sg (Fin (of_int z)) = (truncate False sg (Fin (of_int z)) :: 'a word option)"
    by (intro truncate_paths_agree_in_range) simp_all
  with True assms(1) show ?thesis by (simp add: truncate_def static_cast_int_def)
next
  case False
  with assms(1) show ?thesis by (simp add: truncate_def static_cast_int_def)
qed

lemma round_int_tie_pos:
  assumes "0 < prec fmt" "0 \<le> k" "is_float fmt (Fin (of_int k + 1 / 2))"
    "of_int k + 1 < (2::rat) powi (emax fmt + 1)"
    "int_range sg LENGTH('a) (k + 1)" "sse \<longrightarrow> int_range Signed 32 (k + 1)"
  shows "round_int fmt sse sg (Fin (of_int k + 1 / 2)) = Some (word_of_int (k + 1) :: 'a::len word)"
proof -
  from assms(3) have "rnd fmt (of_int k + 1 / 2) = Fin (of_int k + 1 / 2)" by (simp add: is_float_def)
  from half_plus_half [OF assms(1,2) this assms(4)]
  have r: "rnd fmt (of_int k + 1) = Fin (of_int k + 1)" .
  have s: "of_int k + 1 / 2 + 1 / 2 = (of_int k + 1 :: rat)" by simp
  have "fadd fmt (Fin (of_int k + 1 / 2)) (Fin (1 / 2)) = rnd fmt (of_int k + 1 / 2 + 1 / 2)"
    by (simp only: fadd.simps)
  also have "\<dots> = Fin (of_int k + 1)" by (simp only: s r)
  also have "\<dots> = Fin (of_int (k + 1))" by simp
  finally have "fadd fmt (Fin (of_int k + 1 / 2)) (Fin (1 / 2)) = Fin (of_int (k + 1))" .
  moreover have "\<not> flt (Fin (of_int k + 1 / 2)) (Fin 0)" using assms(2) by simp
  ultimately have "round_int fmt sse sg (Fin (of_int k + 1 / 2)) =
      (truncate sse sg (Fin (of_int (k + 1))) :: 'a word option)"
    by (simp only: round_int_def if_False)
  then show ?thesis using truncate_int_value [OF assms(5,6)] by simp
qed

lemma round_int_tie_neg:
  assumes "0 < prec fmt" "0 \<le> k" "is_float fmt (Fin (of_int k + 1 / 2))"
    "of_int k + 1 < (2::rat) powi (emax fmt + 1)"
    "int_range sg LENGTH('a) (- (k + 1))" "sse \<longrightarrow> int_range Signed 32 (- (k + 1))"
  shows "round_int fmt sse sg (Fin (- (of_int k + 1 / 2))) = Some (word_of_int (- (k + 1)) :: 'a::len word)"
proof -
  from assms(3) have "rnd fmt (of_int k + 1 / 2) = Fin (of_int k + 1 / 2)" by (simp add: is_float_def)
  from half_plus_half [OF assms(1,2) this assms(4)]
  have r: "rnd fmt (- (of_int k + 1)) = Fin (- (of_int k + 1))" by (simp only: rnd_minus fneg.simps)
  have s: "- (of_int k + 1 / 2) + - (1 / 2) = - (of_int k + 1 :: rat)" by simp
  have "fsub fmt (Fin (- (of_int k + 1 / 2))) (Fin (1 / 2)) = rnd fmt (- (of_int k + 1 / 2) + - (1 / 2))"
    by (simp only: fsub_def fneg.simps fadd.simps)
  also have "\<dots> = Fin (- (of_int k + 1))" by (simp only: s r)
  also have "\<dots> = Fin (of_int (- (k + 1)))" by simp
  finally have "fsub fmt (Fin (- (of_int k + 1 / 2))) (Fin (1 / 2)) = Fin (of_int (- (k + 1)))" .
  moreover have "flt (Fin (- (of_int k + 1 / 2))) (Fin 0)" using assms(2) by simp
  ultimately have "round_int fmt sse sg (Fin (- (of_int k + 1 / 2))) =
      (truncate sse sg (Fin (of_int (- (k + 1)))) :: 'a word option)"
    by (simp only: round_int_def if_True)
  then show ?thesis using truncate_int_value [OF assms(5,6)] by simp
qed

text \<open>
  What \<open>round\<close> computes, and its value at the halves.  It adds 0.5 to \<open>x\<close> when \<open>x \<ge> 0\<close> and
  subtracts 0.5 when \<open>x < 0\<close>, then truncates; the truncation is toward zero, on the portable
  path for every value in the range of \<open>Int\<close> and on the SSE path for every value in the
  range of a 32-bit integer.  For every integer \<open>k \<ge> 0\<close> such that \<open>k + 0.5\<close> is a value of
  the format, \<open>round(k + 0.5)\<close> is \<open>k + 1\<close> and \<open>round(-(k + 0.5))\<close> is \<open>-(k + 1)\<close>, where these
  are in range; \<open>round<int>(2.5) == 3\<close> and \<open>round<int>(-2.5) == -3\<close>, on both paths.
\<close>

lemma round_int_at_halves:
  "(fge x (Fin 0) \<longrightarrow>
      round_int fmt sse sg x = (truncate sse sg (fadd fmt x (Fin (1 / 2))) :: 'a::len word option)) \<and>
   (flt x (Fin 0) \<longrightarrow>
      round_int fmt sse sg x = (truncate sse sg (fsub fmt x (Fin (1 / 2))) :: 'a word option)) \<and>
   (int_range sg LENGTH('a) (trunc q) \<longrightarrow>
      truncate False sg (Fin q) = Some (word_of_int (trunc q) :: 'a word)) \<and>
   (int_range Signed 32 (trunc q) \<longrightarrow>
      truncate True sg (Fin q) = Some (scast (word_of_int (trunc q) :: 32 word) :: 'a word)) \<and>
   (\<bar>of_int (trunc q)\<bar> \<le> \<bar>q\<bar> \<and> \<bar>q\<bar> < \<bar>of_int (trunc q)\<bar> + 1 \<and> 0 \<le> of_int (trunc q) * q) \<and>
   (0 < prec fmt \<and> 0 \<le> k \<and> is_float fmt (Fin (of_int k + 1 / 2)) \<and>
    of_int k + 1 < (2::rat) powi (emax fmt + 1) \<and>
    int_range sg LENGTH('a) (k + 1) \<and> (sse \<longrightarrow> int_range Signed 32 (k + 1)) \<longrightarrow>
      round_int fmt sse sg (Fin (of_int k + 1 / 2)) = Some (word_of_int (k + 1) :: 'a word)) \<and>
   (0 < prec fmt \<and> 0 \<le> k \<and> is_float fmt (Fin (of_int k + 1 / 2)) \<and>
    of_int k + 1 < (2::rat) powi (emax fmt + 1) \<and>
    int_range sg LENGTH('a) (- (k + 1)) \<and> (sse \<longrightarrow> int_range Signed 32 (- (k + 1))) \<longrightarrow>
      round_int fmt sse sg (Fin (- (of_int k + 1 / 2))) = Some (word_of_int (- (k + 1)) :: 'a word)) \<and>
   round_int binary64 sse Signed (Fin (5 / 2)) = Some (3 :: 32 word) \<and>
   round_int binary64 sse Signed (Fin (- 5 / 2)) = Some (- 3 :: 32 word)"
proof (intro conjI impI)
  assume "fge x (Fin 0)"
  then have "\<not> flt x (Fin 0)" by (cases x) (simp_all add: fge_def)
  then show "round_int fmt sse sg x = (truncate sse sg (fadd fmt x (Fin (1 / 2))) :: 'a word option)"
    by (simp add: round_int_def)
next
  assume "flt x (Fin 0)"
  then show "round_int fmt sse sg x = (truncate sse sg (fsub fmt x (Fin (1 / 2))) :: 'a word option)"
    by (simp add: round_int_def)
next
  assume "int_range sg LENGTH('a) (trunc q)"
  then show "truncate False sg (Fin q) = Some (word_of_int (trunc q) :: 'a word)"
    by (simp add: truncate_def static_cast_int_def)
next
  assume "int_range Signed 32 (trunc q)"
  then show "truncate True sg (Fin q) = Some (scast (word_of_int (trunc q) :: 32 word) :: 'a word)"
    by (simp add: truncate_def mm_cvtt_si32_def int_range_def)
next
  show "\<bar>of_int (trunc q)\<bar> \<le> \<bar>q\<bar>" "\<bar>q\<bar> < \<bar>of_int (trunc q)\<bar> + 1" "0 \<le> of_int (trunc q) * q"
    using trunc_toward_zero [of q] by simp_all
next
  assume "0 < prec fmt \<and> 0 \<le> k \<and> is_float fmt (Fin (of_int k + 1 / 2)) \<and>
    of_int k + 1 < (2::rat) powi (emax fmt + 1) \<and>
    int_range sg LENGTH('a) (k + 1) \<and> (sse \<longrightarrow> int_range Signed 32 (k + 1))"
  then show "round_int fmt sse sg (Fin (of_int k + 1 / 2)) = Some (word_of_int (k + 1) :: 'a word)"
    by (intro round_int_tie_pos) simp_all
next
  assume "0 < prec fmt \<and> 0 \<le> k \<and> is_float fmt (Fin (of_int k + 1 / 2)) \<and>
    of_int k + 1 < (2::rat) powi (emax fmt + 1) \<and>
    int_range sg LENGTH('a) (- (k + 1)) \<and> (sse \<longrightarrow> int_range Signed 32 (- (k + 1)))"
  then show "round_int fmt sse sg (Fin (- (of_int k + 1 / 2))) = Some (word_of_int (- (k + 1)) :: 'a word)"
    by (intro round_int_tie_neg) simp_all
next
  have "fadd binary64 (Fin (5 / 2)) (Fin (1 / 2)) = Fin 3" using rnd64_three by simp
  then show "round_int binary64 sse Signed (Fin (5 / 2)) = Some (3 :: 32 word)"
    by (cases sse) (simp_all add: round_int_def truncate_def mm_cvtt_si32_def static_cast_int_def int_range_def)
next
  have "rnd binary64 (- 3) = Fin (- 3)"
    by (rule rnd_exact [where m = "- 3" and k = 0]) (simp_all add: binary64_def)
  then have "fsub binary64 (Fin (- 5 / 2)) (Fin (1 / 2)) = Fin (- 3)" by (simp add: fsub_def)
  then show "round_int binary64 sse Signed (Fin (- 5 / 2)) = Some (- 3 :: 32 word)"
    by (cases sse) (simp_all add: round_int_def truncate_def mm_cvtt_si32_def static_cast_int_def int_range_def)
qed

text \<open>
  At \<open>2.5\<close> on the portable path, \<open>-2.5\<close> on the SSE path, the truncation of \<open>3.5\<close>, and the
  halves \<open>7.5\<close> and \<open>-7.5\<close> in \<open>float\<close>.
\<close>

lemma round_int_at_halves_examples:
  "(fge (Fin (5 / 2)) (Fin 0) \<and> round_int binary64 False Signed (Fin (5 / 2)) = Some (3 :: 32 word)) \<and>
   (flt (Fin (- 5 / 2)) (Fin 0) \<and> round_int binary64 True Signed (Fin (- 5 / 2)) = Some (- 3 :: 32 word)) \<and>
   (int_range Signed 32 (trunc (7 / 2)) \<and>
    truncate False Signed (Fin (7 / 2)) = Some (3 :: 32 word) \<and>
    truncate True Signed (Fin (7 / 2)) = Some (3 :: 32 word)) \<and>
   (is_float binary32 (Fin (of_int 7 + 1 / 2)) \<and>
    round_int binary32 False Signed (Fin (of_int 7 + 1 / 2)) = Some (word_of_int (7 + 1) :: 32 word) \<and>
    round_int binary32 True Signed (Fin (- (of_int 7 + 1 / 2))) = Some (word_of_int (- (7 + 1)) :: 32 word))"
proof -
  have h: "fge (Fin (5 / 2)) (Fin 0)" "flt (Fin (- 5 / 2)) (Fin 0)"
    "int_range Signed 32 (trunc (7 / 2))" "int_range Signed LENGTH(32) (trunc (7 / 2))"
    by (simp_all add: fge_def int_range_def trunc_seven_halves)
  have "rnd binary32 (15 / 2) = Fin (15 / 2)"
    by (rule rnd_exact [where m = 15 and k = "- 1"]) (simp_all add: binary32_def)
  then have f: "is_float binary32 (Fin (of_int 7 + 1 / 2))" by (simp add: is_float_def)
  have t: "0 < prec binary32" "(0::int) \<le> 7" "of_int 7 + 1 < (2::rat) powi (emax binary32 + 1)"
    "int_range Signed LENGTH(32) (7 + 1)" "int_range Signed 32 (7 + 1)"
    "int_range Signed LENGTH(32) (- (7 + 1))" "int_range Signed 32 (- (7 + 1))"
    by (simp_all add: binary32_def int_range_def)
  note a = round_int_at_halves [of "Fin (5 / 2)" binary64 False Signed "7 / 2" 7, where 'a = 32]
  note b = round_int_at_halves [of "Fin (- 5 / 2)" binary64 True Signed "7 / 2" 7, where 'a = 32]
  note c = round_int_at_halves [of "Fin 0" binary32 False Signed 0 7, where 'a = 32]
  note d = round_int_at_halves [of "Fin 0" binary32 True Signed 0 7, where 'a = 32]
  from a have "round_int binary64 False Signed (Fin (5 / 2)) = Some (3 :: 32 word)" by blast
  moreover from b have "round_int binary64 True Signed (Fin (- 5 / 2)) = Some (- 3 :: 32 word)" by blast
  moreover from a h have "truncate False Signed (Fin (7 / 2)) = Some (word_of_int (trunc (7 / 2)) :: 32 word)"
    by blast
  then have "truncate False Signed (Fin (7 / 2)) = Some (3 :: 32 word)"
    by (simp add: trunc_seven_halves)
  moreover from b h have "truncate True Signed (Fin (7 / 2)) =
      Some (scast (word_of_int (trunc (7 / 2)) :: 32 word) :: 32 word)" by blast
  then have "truncate True Signed (Fin (7 / 2)) = Some (3 :: 32 word)"
    by (simp add: trunc_seven_halves)
  moreover from c f t
  have "round_int binary32 False Signed (Fin (of_int 7 + 1 / 2)) = Some (word_of_int (7 + 1) :: 32 word)"
    by blast
  moreover from d f t
  have "round_int binary32 True Signed (Fin (- (of_int 7 + 1 / 2))) = Some (word_of_int (- (7 + 1)) :: 32 word)"
    by blast
  ultimately show ?thesis using h f by blast
qed

text \<open>
  The largest \<open>double\<close> below 0.5, and two sums that are ties of the format and round to the
  even neighbour.
\<close>

lemma rnd64_below_half: "rnd binary64 (1 / 2 - 2 powi (- 54)) = Fin (1 / 2 - 2 powi (- 54))"
  by (rule rnd_exact [where m = "2 ^ 53 - 1" and k = "- 54"]) (simp_all add: binary64_def)

lemma rnd64_below_one_tie: "rnd binary64 (1 - 2 powi (- 54)) = Fin 1"
proof -
  have "rnd binary64 (1 - 2 powi (- 54)) = Fin (of_int (2 ^ 53) * 2 powi (- 53))"
    by (rule rnd_tie [where e = "- 1" and f = "2 ^ 53 - 1"]) (simp_all add: binary64_def)
  then show ?thesis by simp
qed

lemma rnd32_odd_tie: "rnd binary32 (8388609 + 1 / 2) = Fin 8388610"
proof -
  have "rnd binary32 (8388609 + 1 / 2) = Fin (of_int 8388610 * 2 powi 0)"
    by (rule rnd_tie [where e = 23 and f = 8388609]) (simp_all add: binary32_def)
  then show ?thesis by simp
qed

text \<open>
  Claim C8 does not hold of the code.  The sum \<open>x + 0.5\<close> is computed in \<open>T\<close> and is rounded
  before it is truncated.  At the largest \<open>double\<close> below 0.5, \<open>0.49999999999999994\<close>, the sum
  is halfway between \<open>1 - 2^-53\<close> and 1 and rounds to 1, so that \<open>round<int>\<close> returns 1 where
  the nearest integer is 0 (and \<open>-1\<close> at the opposite value); at the \<open>float\<close> \<open>8388609\<close>, an
  integer already, the sum rounds to \<open>8388610\<close>.  On the SSE path \<open>round\<close> has the 32-bit
  conversion of \<open>truncate\<close>: \<open>round<int64>(2147483647.5)\<close> is \<open>-2147483648\<close> there and
  \<open>2147483648\<close> on the portable path.
\<close>

theorem round_int_not_nearest:
  "is_float binary64 (Fin (1 / 2 - 2 powi (- 54))) \<and>
   fge (Fin (1 / 2 - 2 powi (- 54))) (Fin 0) \<and> flt (Fin (1 / 2 - 2 powi (- 54))) (Fin (1 / 2)) \<and>
   round_int binary64 False Signed (Fin (1 / 2 - 2 powi (- 54))) = Some (1 :: 32 word) \<and>
   round_int binary64 False Signed (Fin (- (1 / 2 - 2 powi (- 54)))) = Some (- 1 :: 32 word) \<and>
   is_float binary32 (Fin 8388609) \<and>
   round_int binary32 False Signed (Fin 8388609) = Some (8388610 :: 32 word) \<and>
   is_float binary64 (Fin (2147483647 + 1 / 2)) \<and>
   round_int binary64 False Signed (Fin (2147483647 + 1 / 2)) = Some (2147483648 :: 64 word) \<and>
   round_int binary64 True Signed (Fin (2147483647 + 1 / 2)) = Some (- 2147483648 :: 64 word)"
proof -
  have x: "is_float binary64 (Fin (1 / 2 - 2 powi (- 54)))"
    using rnd64_below_half by (simp add: is_float_def)
  have c: "fge (Fin (1 / 2 - 2 powi (- 54))) (Fin 0)" "flt (Fin (1 / 2 - 2 powi (- 54))) (Fin (1 / 2))"
    by (simp_all add: fge_def)
  have t: "trunc 1 = 1" "trunc (- 1) = - 1"
    using trunc_of_int [of 1] trunc_of_int [of "- 1"] by simp_all
  have "fadd binary64 (Fin (1 / 2 - 2 powi (- 54))) (Fin (1 / 2)) = Fin 1"
    using rnd64_below_one_tie by simp
  then have p: "round_int binary64 False Signed (Fin (1 / 2 - 2 powi (- 54))) = Some (1 :: 32 word)"
    by (simp add: round_int_def truncate_def static_cast_int_def int_range_def t)
  have "rnd binary64 (- (1 - 2 powi (- 54))) = Fin (- 1)"
    using rnd64_below_one_tie rnd_minus [of binary64 "1 - 2 powi (- 54)"] by simp
  then have "fsub binary64 (Fin (- (1 / 2 - 2 powi (- 54)))) (Fin (1 / 2)) = Fin (- 1)"
    by (simp add: fsub_def)
  then have n: "round_int binary64 False Signed (Fin (- (1 / 2 - 2 powi (- 54)))) = Some (- 1 :: 32 word)"
    by (simp add: round_int_def truncate_def static_cast_int_def int_range_def t)
  have "rnd binary32 8388609 = Fin 8388609"
    by (rule rnd_exact [where m = 8388609 and k = 0]) (simp_all add: binary32_def)
  then have f: "is_float binary32 (Fin 8388609)" by (simp add: is_float_def)
  have "fadd binary32 (Fin 8388609) (Fin (1 / 2)) = Fin 8388610"
    using rnd32_odd_tie by simp
  then have g: "round_int binary32 False Signed (Fin 8388609) = Some (8388610 :: 32 word)"
    by (simp add: round_int_def truncate_def static_cast_int_def int_range_def)
  have "rnd binary64 (2147483647 + 1 / 2) = Fin (2147483647 + 1 / 2)"
    by (rule rnd_exact [where m = 4294967295 and k = "- 1"]) (simp_all add: binary64_def)
  then have h: "is_float binary64 (Fin (2147483647 + 1 / 2))" by (simp add: is_float_def)
  have "rnd binary64 2147483648 = Fin 2147483648"
    by (rule rnd_exact [where m = 1 and k = 31]) (simp_all add: binary64_def)
  then have s: "fadd binary64 (Fin (2147483647 + 1 / 2)) (Fin (1 / 2)) = Fin 2147483648"
    by simp
  have i: "round_int binary64 False Signed (Fin (2147483647 + 1 / 2)) = Some (2147483648 :: 64 word)"
    unfolding round_int_def using s
    by (simp add: truncate_def static_cast_int_def int_range_def)
  have j: "round_int binary64 True Signed (Fin (2147483647 + 1 / 2)) = Some (- 2147483648 :: 64 word)"
    unfolding round_int_def using s
    by (simp add: truncate_def mm_cvtt_si32_def)
  from x c p n f g h i j show ?thesis by blast
qed

end
